theory Spec2Isabelle
  imports Main "HOL-Library.Word" "HOL-Library.Sublist"
begin

unbundle bit_operations_syntax

section \<open>The controller state ring of \<open>src/input/controller.cpp\<close>\<close>

text \<open>
  The embedding follows \<open>GameController\<close> member by member. The object is a record that
  every member function takes and returns; \<open>m_mutex\<close> and \<open>m_sdl_gamepad\<close> are left out
  (locking and the SDL calls are not part of the sequential behaviour of the ring).
  Where each member function takes \<open>m_mutex\<close>, and which members it reads and writes
  meanwhile, is the subject of the section on the lock.

  The header \<open>controller.h\<close> and \<open>pad.h\<close> are not among the sources, so what they
  declare is taken as a parameter of the functions that use it:
  \<^item> \<open>MAX_STATES\<close>, the capacity of the ring, a \<open>u32\<close> constant;
  \<^item> \<open>L2\<close> and \<open>R2\<close>, the two \<open>OrbisPadButtonDataOffset\<close> masks used by \<open>Axis\<close>;
  \<^item> the value of \<open>State()\<close>, the default sample stored by the constructor.
  The clock \<open>sceKernelGetProcessTime()\<close> is the parameter \<open>now\<close> of every function that
  reads it.

  The members \<open>m_states_num\<close> and \<open>m_first_state\<close> are \<open>u32\<close>, as the locals \<open>last\<close> and
  \<open>index\<close> computed from them, so \<open>m_first_state - 1 + m_states_num\<close> in \<open>Poll\<close> wraps
  around. The \<open>int\<close> parameters \<open>id\<close> (unused, here \<open>pad_id\<close>), \<open>touchIndex\<close> and
  \<open>states_num\<close> are only compared, never computed with, and are of type \<open>int\<close>; the axis
  value, which is stored, is a 32-bit word read as signed.
\<close>

type_synonym u16 = "16 word"
type_synonym u32 = "32 word"
type_synonym u64 = "64 word"
type_synonym s32 = "32 word" \<comment> \<open>a C \<open>int\<close>; read with \<open>sint\<close>\<close>

subsection \<open>Data\<close>

text \<open>
  Modelled from the spec: \<open>enum class Axis\<close> is declared in \<open>controller.h\<close>. The source
  names \<open>TriggerLeft\<close> and \<open>TriggerRight\<close>; the spec lists the channels as left/right stick
  X/Y and left/right trigger.
\<close>

datatype Axis = LeftX | LeftY | RightX | RightY | TriggerLeft | TriggerRight

text \<open>
  Modelled from the spec: a touch slot is \<open>{active: bool, x: u16, y: u16}\<close>; the source
  writes its members \<open>state\<close>, \<open>x\<close> and \<open>y\<close> (here with the prefix \<open>tp_\<close>).
\<close>

record TouchpadEntry =
  tp_state :: bool
  tp_x :: u16
  tp_y :: u16

text \<open>
  Modelled from the spec: a sample has a 64-bit timestamp, a button bit-field, one signed
  integer per analog channel and two touch slots. The members are named as the source
  uses them: \<open>time\<close>, \<open>buttonsState\<close>, \<open>axes[axis_id]\<close>, \<open>touchpad[touchIndex]\<close>.
\<close>

record State =
  buttonsState :: u32
  time :: u64
  axes :: "Axis \<Rightarrow> s32"
  touchpad :: "TouchpadEntry list"

record StateInternal =
  obtained :: bool

record GameController =
  m_connected :: bool
  m_connected_count :: s32
  m_last_state :: State
  m_states_num :: u32
  m_first_state :: u32
  m_states :: "State list"
  m_private :: "StateInternal list"

subsection \<open>Construction and the single-sample reader\<close>

text \<open>
  The constructor assigns two members; all others keep what the object \<open>this\<close> held
  before its body ran (their in-class initialisers are in the header).
\<close>

definition GameController :: "State \<Rightarrow> GameController \<Rightarrow> GameController" where
  "GameController State_default this =
     this\<lparr>m_states_num := 0, m_last_state := State_default\<rparr>"

definition GetLastState :: "u32 \<Rightarrow> GameController \<Rightarrow> State" where
  "GetLastState MAX_STATES s =
     (if m_states_num s = 0 then m_last_state s
      else let last = (m_first_state s + m_states_num s - 1) mod MAX_STATES
           in m_states s ! unat last)"

text \<open>\<open>ReadState\<close> returns \<open>(*state, *isConnected, *connectedCount)\<close>; the object is unchanged.\<close>

definition ReadState :: "u32 \<Rightarrow> GameController \<Rightarrow> State \<times> bool \<times> s32" where
  "ReadState MAX_STATES s = (GetLastState MAX_STATES s, m_connected s, m_connected_count s)"

subsection \<open>Pushing a sample\<close>

definition AddState :: "u32 \<Rightarrow> State \<Rightarrow> GameController \<Rightarrow> GameController" where
  "AddState MAX_STATES st s =
     (let s1 = (if m_states_num s \<ge> MAX_STATES
                then s\<lparr>m_states_num := MAX_STATES - 1,
                       m_first_state := (m_first_state s + 1) mod MAX_STATES\<rparr>
                else s);
          index = (m_first_state s1 + m_states_num s1) mod MAX_STATES
      in s1\<lparr>m_states := (m_states s1)[unat index := st],
            m_last_state := st,
            m_private := (m_private s1)[unat index := (m_private s1 ! unat index)\<lparr>obtained := False\<rparr>],
            m_states_num := m_states_num s1 + 1\<rparr>)"

subsection \<open>The batch reader\<close>

text \<open>
  The \<open>for\<close> loop of \<open>ReadStates\<close>, from index \<open>i\<close>. The caller's buffer \<open>states\<close> is the list
  of the entries written so far (\<open>states[ret_num++] = ...\<close> appends), so \<open>ret_num\<close> is its
  length. \<open>ret_num\<close> never exceeds \<open>states_num\<close>, a C \<open>int\<close>, so it cannot overflow and both
  are of type \<open>int\<close>.
\<close>

function ReadStates_loop ::
  "u32 \<Rightarrow> int \<Rightarrow> u32 \<Rightarrow> int \<times> State list \<times> GameController \<Rightarrow> int \<times> State list \<times> GameController"
where
  "ReadStates_loop MAX_STATES states_num i (ret_num, states, s) =
     (if i < m_states_num s then
        if ret_num \<ge> states_num then (ret_num, states, s)
        else
          let index = (m_first_state s + i) mod MAX_STATES in
          if \<not> obtained (m_private s ! unat index) then
            ReadStates_loop MAX_STATES states_num (i + 1)
              (ret_num + 1, states @ [m_states s ! unat index],
               s\<lparr>m_private := (m_private s)[unat index := (m_private s ! unat index)\<lparr>obtained := True\<rparr>]\<rparr>)
          else ReadStates_loop MAX_STATES states_num (i + 1) (ret_num, states, s)
      else (ret_num, states, s))"
  by pat_completeness auto

termination ReadStates_loop
proof (relation "measure (\<lambda>(MAX_STATES, states_num, i, ret_num, states, s). unat (m_states_num s) - unat i)")
  have step: "unat n - unat (i + 1) < unat n - unat i" if "i < n" for i n :: u32
  proof -
    from that have "i + 1 \<noteq> 0"
      by (metis add_eq_0_iff2 word_n1_ge leD)
    then have "unat (i + 1) = Suc (unat i)"
      by (simp add: unatSuc add.commute)
    with that show ?thesis by (simp add: word_less_nat_alt)
  qed
  show "wf (measure (\<lambda>(MAX_STATES, states_num, i, ret_num, states, s). unat (m_states_num s) - unat i))"
    by simp
  show "((MAX_STATES, states_num, i + 1, ret_num + 1, states @ [m_states s ! unat index],
          s\<lparr>m_private := (m_private s)[unat index := (m_private s ! unat index)\<lparr>obtained := True\<rparr>]\<rparr>),
         MAX_STATES, states_num, i, ret_num, states, s)
        \<in> measure (\<lambda>(MAX_STATES, states_num, i, ret_num, states, s). unat (m_states_num s) - unat i)"
    if "i < m_states_num s"
    for MAX_STATES :: u32 and states_num ret_num :: int and i index :: u32
      and states :: "State list" and s :: GameController
    using step [OF that] by simp
  show "((MAX_STATES, states_num, i + 1, ret_num, states, s), MAX_STATES, states_num, i, ret_num, states, s)
        \<in> measure (\<lambda>(MAX_STATES, states_num, i, ret_num, states, s). unat (m_states_num s) - unat i)"
    if "i < m_states_num s"
    for MAX_STATES :: u32 and states_num ret_num :: int and i :: u32
      and states :: "State list" and s :: GameController
    using step [OF that] by simp
qed

declare ReadStates_loop.simps [simp del]

text \<open>
  \<open>ReadStates\<close> returns \<open>(ret_num, states, *isConnected, *connectedCount)\<close> and the object.
\<close>

definition ReadStates ::
  "u32 \<Rightarrow> int \<Rightarrow> GameController \<Rightarrow> (int \<times> State list \<times> bool \<times> s32) \<times> GameController"
where
  "ReadStates MAX_STATES states_num s =
     (let (ret_num, states, s') =
            (if m_connected s then
               if m_states_num s = 0 then (1, [m_last_state s], s)
               else ReadStates_loop MAX_STATES states_num 0 (0, [], s)
             else (0, [], s))
      in ((ret_num, states, m_connected s, m_connected_count s), s'))"

subsection \<open>The mutators\<close>

definition CheckButton :: "u32 \<Rightarrow> u64 \<Rightarrow> int \<Rightarrow> u32 \<Rightarrow> bool \<Rightarrow> GameController \<Rightarrow> GameController" where
  "CheckButton MAX_STATES now pad_id button is_pressed s =
     (let state = GetLastState MAX_STATES s;
          state = state\<lparr>time := now\<rparr>;
          state = (if is_pressed then state\<lparr>buttonsState := buttonsState state OR button\<rparr>
                   else state\<lparr>buttonsState := buttonsState state AND NOT button\<rparr>)
      in AddState MAX_STATES state s)"

definition Axis ::
  "u32 \<Rightarrow> u32 \<Rightarrow> u32 \<Rightarrow> u64 \<Rightarrow> int \<Rightarrow> Axis \<Rightarrow> s32 \<Rightarrow> GameController \<Rightarrow> GameController"
where
  "Axis MAX_STATES L2 R2 now pad_id axis val s =
     (let state = GetLastState MAX_STATES s;
          state = state\<lparr>time := now\<rparr>;
          state = state\<lparr>axes := (axes state)(axis := val)\<rparr>;
          state = (if axis = TriggerLeft then
                     if sint val > 0 then state\<lparr>buttonsState := buttonsState state OR L2\<rparr>
                     else state\<lparr>buttonsState := buttonsState state AND NOT L2\<rparr>
                   else state);
          state = (if axis = TriggerRight then
                     if sint val > 0 then state\<lparr>buttonsState := buttonsState state OR R2\<rparr>
                     else state\<lparr>buttonsState := buttonsState state AND NOT R2\<rparr>
                   else state)
      in AddState MAX_STATES state s)"

text \<open>
  \<open>SetTouchpadState\<close> guards the slot index with \<open>touchIndex < 2\<close> only. With a negative
  index the three stores to \<open>state.touchpad[touchIndex]\<close> fall before the array
  \<open>touchpad[2]\<close>: that is undefined behaviour in C++, and the model returns it as the
  fault \<open>OutOfBoundsWrite\<close> instead of inventing a state. The coordinates \<open>cx\<close> and
  \<open>cy\<close> are the values of \<open>static_cast<u16>(x * 1920)\<close> and
  \<open>static_cast<u16>(y * 941)\<close>; the floating-point scaling itself is not modelled.
\<close>

datatype fault = OutOfBoundsWrite

definition SetTouchpadState ::
  "u32 \<Rightarrow> u64 \<Rightarrow> int \<Rightarrow> bool \<Rightarrow> u16 \<Rightarrow> u16 \<Rightarrow> GameController \<Rightarrow> fault + GameController"
where
  "SetTouchpadState MAX_STATES now touchIndex touchDown cx cy s =
     (if touchIndex < 2 then
        let state = GetLastState MAX_STATES s;
            state = state\<lparr>time := now\<rparr>
        in if touchIndex < 0 then Inl OutOfBoundsWrite
           else
             let state = state\<lparr>touchpad := (touchpad state)[nat touchIndex :=
                                   (touchpad state ! nat touchIndex)\<lparr>tp_state := touchDown\<rparr>]\<rparr>;
                 state = state\<lparr>touchpad := (touchpad state)[nat touchIndex :=
                                   (touchpad state ! nat touchIndex)\<lparr>tp_x := cx\<rparr>]\<rparr>;
                 state = state\<lparr>touchpad := (touchpad state)[nat touchIndex :=
                                   (touchpad state ! nat touchIndex)\<lparr>tp_y := cy\<rparr>]\<rparr>
             in Inr (AddState MAX_STATES state s)
      else Inr s)"

subsection \<open>The heartbeat\<close>

text \<open>\<open>Poll\<close> returns the constant 100 and the object.\<close>

definition Poll :: "u32 \<Rightarrow> u64 \<Rightarrow> GameController \<Rightarrow> u32 \<times> GameController" where
  "Poll MAX_STATES now s =
     (100,
      if m_connected s then
        if m_states_num s = 0 then
          let diff = (now - time (m_last_state s)) div 1000
          in if diff \<ge> 100 then AddState MAX_STATES (GetLastState MAX_STATES s) s else s
        else
          let index = (m_first_state s - 1 + m_states_num s) mod MAX_STATES;
              diff = (now - time (m_states s ! unat index)) div 1000
          in if obtained (m_private s ! unat index) \<and> diff \<ge> 100
             then AddState MAX_STATES (GetLastState MAX_STATES s) s else s
      else s)"

section \<open>The lock\<close>

text \<open>
  The members of the object that the ring, the cached sample and the connection state
  live in, and what a member function does with them and with \<open>m_mutex\<close>:
  \<open>std::scoped_lock lock{m_mutex}\<close> is \<open>Lock\<close>, the end of its scope is \<open>Unlock\<close>.
\<close>

datatype member =
  M_connected | M_connected_count | M_last_state | M_states_num | M_first_state | M_states | M_private

datatype access = Lock | Unlock | Read member | Write member

text \<open>
  The accesses of each member function on the path it takes from the state \<open>s\<close>, in
  program order, one definition per function of the source. \<open>GetLastState\<close> and \<open>AddState\<close>
  take no lock themselves; \<open>GetLastState\<close> changes nothing, so a mutator's \<open>AddState\<close> starts
  from the same state. The stores of a mutator go to its local copy \<open>state\<close> and are no
  accesses of the object.
\<close>

definition GetLastState_accesses :: "GameController \<Rightarrow> access list" where
  "GetLastState_accesses s =
     Read M_states_num #
     (if m_states_num s = 0 then [Read M_last_state]
      else [Read M_first_state, Read M_states_num, Read M_states])"

definition AddState_accesses :: "u32 \<Rightarrow> GameController \<Rightarrow> access list" where
  "AddState_accesses MAX_STATES s =
     Read M_states_num #
     (if m_states_num s \<ge> MAX_STATES
      then [Write M_states_num, Read M_first_state, Write M_first_state] else []) @
     [Read M_first_state, Read M_states_num, Write M_states, Write M_last_state, Write M_private,
      Read M_states_num, Write M_states_num]"

definition ReadState_accesses :: "GameController \<Rightarrow> access list" where
  "ReadState_accesses s =
     [Lock, Read M_connected, Read M_connected_count] @ GetLastState_accesses s @ [Unlock]"

function ReadStates_loop_accesses :: "u32 \<Rightarrow> int \<Rightarrow> u32 \<Rightarrow> int \<times> GameController \<Rightarrow> access list" where
  "ReadStates_loop_accesses MAX_STATES states_num i (ret_num, s) =
     Read M_states_num #
     (if i < m_states_num s then
        if ret_num \<ge> states_num then []
        else
          let index = (m_first_state s + i) mod MAX_STATES in
          Read M_first_state # Read M_private #
          (if \<not> obtained (m_private s ! unat index) then
             Write M_private # Read M_states #
             ReadStates_loop_accesses MAX_STATES states_num (i + 1)
               (ret_num + 1,
                s\<lparr>m_private := (m_private s)[unat index := (m_private s ! unat index)\<lparr>obtained := True\<rparr>]\<rparr>)
           else ReadStates_loop_accesses MAX_STATES states_num (i + 1) (ret_num, s))
      else [])"
  by pat_completeness auto
termination ReadStates_loop_accesses
proof (relation "measure (\<lambda>(MAX_STATES, states_num, i, ret_num, s). unat (m_states_num s) - unat i)")
  have step: "unat n - unat (i + 1) < unat n - unat i" if "i < n" for i n :: u32
  proof -
    from that have "i + 1 \<noteq> 0"
      by (metis add_eq_0_iff2 word_n1_ge leD)
    then have "unat (i + 1) = Suc (unat i)"
      by (simp add: unatSuc add.commute)
    with that show ?thesis by (simp add: word_less_nat_alt)
  qed
  show "wf (measure (\<lambda>(MAX_STATES, states_num, i, ret_num, s). unat (m_states_num s) - unat i))"
    by simp
  show "((MAX_STATES, states_num, i + 1, ret_num + 1,
          s\<lparr>m_private := (m_private s)[unat index := (m_private s ! unat index)\<lparr>obtained := True\<rparr>]\<rparr>),
         MAX_STATES, states_num, i, ret_num, s)
        \<in> measure (\<lambda>(MAX_STATES, states_num, i, ret_num, s). unat (m_states_num s) - unat i)"
    if "i < m_states_num s"
    for MAX_STATES :: u32 and states_num ret_num :: int and i index :: u32 and s :: GameController
    using step [OF that] by simp
  show "((MAX_STATES, states_num, i + 1, ret_num, s), MAX_STATES, states_num, i, ret_num, s)
        \<in> measure (\<lambda>(MAX_STATES, states_num, i, ret_num, s). unat (m_states_num s) - unat i)"
    if "i < m_states_num s"
    for MAX_STATES :: u32 and states_num ret_num :: int and i :: u32 and s :: GameController
    using step [OF that] by simp
qed

declare ReadStates_loop_accesses.simps [simp del]

definition ReadStates_accesses :: "u32 \<Rightarrow> int \<Rightarrow> GameController \<Rightarrow> access list" where
  "ReadStates_accesses MAX_STATES states_num s =
     [Lock, Read M_connected, Read M_connected_count, Read M_connected] @
     (if m_connected s then
        Read M_states_num #
        (if m_states_num s = 0 then [Read M_last_state]
         else ReadStates_loop_accesses MAX_STATES states_num 0 (0, s))
      else []) @
     [Unlock]"

definition CheckButton_accesses :: "u32 \<Rightarrow> GameController \<Rightarrow> access list" where
  "CheckButton_accesses MAX_STATES s =
     [Lock] @ GetLastState_accesses s @ AddState_accesses MAX_STATES s @ [Unlock]"

definition Axis_accesses :: "u32 \<Rightarrow> GameController \<Rightarrow> access list" where
  "Axis_accesses MAX_STATES s =
     [Lock] @ GetLastState_accesses s @ AddState_accesses MAX_STATES s @ [Unlock]"

definition SetTouchpadState_accesses :: "u32 \<Rightarrow> int \<Rightarrow> GameController \<Rightarrow> access list" where
  "SetTouchpadState_accesses MAX_STATES touchIndex s =
     (if touchIndex < 2
      then [Lock] @ GetLastState_accesses s @ AddState_accesses MAX_STATES s @ [Unlock]
      else [])"

definition Poll_accesses :: "u32 \<Rightarrow> u64 \<Rightarrow> GameController \<Rightarrow> access list" where
  "Poll_accesses MAX_STATES now s =
     Read M_connected #
     (if m_connected s then
        Read M_states_num #
        (if m_states_num s = 0 then
           Read M_last_state #
           (let diff = (now - time (m_last_state s)) div 1000
            in if diff \<ge> 100 then GetLastState_accesses s @ AddState_accesses MAX_STATES s else [])
         else
           Read M_first_state # Read M_states_num # Read M_states # Read M_private #
           (let index = (m_first_state s - 1 + m_states_num s) mod MAX_STATES;
                diff = (now - time (m_states s ! unat index)) div 1000
            in if obtained (m_private s ! unat index) \<and> diff \<ge> 100
               then GetLastState_accesses s @ AddState_accesses MAX_STATES s else []))
      else [])"

text \<open>
  \<open>locked_throughout tr held\<close>: every read and write of \<open>tr\<close> happens while the lock is held,
  \<open>held\<close> telling whether it is held at the start.
\<close>

primrec locked_throughout :: "access list \<Rightarrow> bool \<Rightarrow> bool" where
  "locked_throughout [] held = True"
| "locked_throughout (a # tr) held =
     (case a of
        Lock \<Rightarrow> locked_throughout tr True
      | Unlock \<Rightarrow> locked_throughout tr False
      | Read m \<Rightarrow> held \<and> locked_throughout tr held
      | Write m \<Rightarrow> held \<and> locked_throughout tr held)"

primrec is_field_access :: "access \<Rightarrow> bool" where
  "is_field_access Lock = False"
| "is_field_access Unlock = False"
| "is_field_access (Read m) = True"
| "is_field_access (Write m) = True"

section \<open>The ring as a list\<close>

text \<open>
  \<open>ring_inv\<close> is the representation invariant of the ring: a non-empty capacity whose
  index sums stay below \<open>2^32\<close>, both arrays of that length (\<open>std::array<_, MAX_STATES>\<close>),
  the head inside the array and the count at most the capacity.
\<close>

definition ring_inv :: "u32 \<Rightarrow> GameController \<Rightarrow> bool" where
  "ring_inv MAX_STATES s \<longleftrightarrow>
     0 < MAX_STATES \<and> unat MAX_STATES \<le> 2 ^ 31 \<and>
     length (m_states s) = unat MAX_STATES \<and> length (m_private s) = unat MAX_STATES \<and>
     m_first_state s < MAX_STATES \<and> m_states_num s \<le> MAX_STATES"

text \<open>
  \<open>slot MAX_STATES s k\<close> is the array index of the \<open>k\<close>-th oldest buffered sample, and
  \<open>buffered\<close> lists the samples in the ring from the oldest to the latest, each with its
  \<open>obtained\<close> flag: what the loop of \<open>ReadStates\<close> visits, in its order.
\<close>

definition slot :: "u32 \<Rightarrow> GameController \<Rightarrow> nat \<Rightarrow> nat" where
  "slot MAX_STATES s k = (unat (m_first_state s) + k) mod unat MAX_STATES"

definition buffered :: "u32 \<Rightarrow> GameController \<Rightarrow> (State \<times> bool) list" where
  "buffered MAX_STATES s =
     map (\<lambda>k. (m_states s ! slot MAX_STATES s k, obtained (m_private s ! slot MAX_STATES s k)))
       [0..<unat (m_states_num s)]"

text \<open>
  What the loop of \<open>ReadStates\<close> does, told on the list \<open>buffered\<close>: with a budget of \<open>n\<close>
  entries it walks the list from the oldest sample, returns each sample whose flag is
  unset and sets the flag, and stops when the budget is used up.
\<close>

fun drain :: "int \<Rightarrow> (State \<times> bool) list \<Rightarrow> State list \<times> (State \<times> bool) list" where
  "drain n [] = ([], [])"
| "drain n ((x, b) # v) =
     (if n \<le> 0 then ([], (x, b) # v)
      else if b then (fst (drain n v), (x, b) # snd (drain n v))
      else (x # fst (drain (n - 1) v), (x, True) # snd (drain (n - 1) v)))"

text \<open>
  The samples that are buffered and not yet returned to the reader, oldest first.
\<close>

definition pending :: "u32 \<Rightarrow> GameController \<Rightarrow> State list" where
  "pending MAX_STATES s = map fst (filter (\<lambda>p. \<not> snd p) (buffered MAX_STATES s))"

section \<open>Call sequences\<close>

text \<open>
  A history of the ring: pushes (every mutator and the heartbeat push through \<open>AddState\<close>)
  and batch reads. \<open>replay\<close> runs a history and collects what each \<open>ReadStates\<close> returned;
  \<open>pushes\<close> lists the pushed samples.
\<close>

datatype event = Push State | Drain int

fun pushes :: "event list \<Rightarrow> State list" where
  "pushes [] = []"
| "pushes (Push x # es) = x # pushes es"
| "pushes (Drain n # es) = pushes es"

fun replay :: "u32 \<Rightarrow> event list \<Rightarrow> GameController \<Rightarrow> State list list \<times> GameController" where
  "replay MAX_STATES [] s = ([], s)"
| "replay MAX_STATES (Push x # es) s = replay MAX_STATES es (AddState MAX_STATES x s)"
| "replay MAX_STATES (Drain n # es) s =
     (let ((ret_num, states, isConnected, connectedCount), s') = ReadStates MAX_STATES n s;
          (outs, s'') = replay MAX_STATES es s'
      in (states # outs, s''))"

text \<open>
  The public member functions as calls, each with the clock value it reads, and a run of
  calls from a state. A run stops at the first fault.
\<close>

datatype call =
    Call_CheckButton u64 int u32 bool
  | Call_Axis u64 int Axis s32
  | Call_SetTouchpadState u64 int bool u16 u16
  | Call_ReadState
  | Call_ReadStates int
  | Call_Poll u64

fun step :: "u32 \<Rightarrow> u32 \<Rightarrow> u32 \<Rightarrow> call \<Rightarrow> GameController \<Rightarrow> fault + GameController" where
  "step MAX_STATES L2 R2 (Call_CheckButton now pad_id button is_pressed) s =
     Inr (CheckButton MAX_STATES now pad_id button is_pressed s)"
| "step MAX_STATES L2 R2 (Call_Axis now pad_id axis val) s =
     Inr (Axis MAX_STATES L2 R2 now pad_id axis val s)"
| "step MAX_STATES L2 R2 (Call_SetTouchpadState now touchIndex touchDown cx cy) s =
     SetTouchpadState MAX_STATES now touchIndex touchDown cx cy s"
| "step MAX_STATES L2 R2 Call_ReadState s = Inr s"
| "step MAX_STATES L2 R2 (Call_ReadStates states_num) s = Inr (snd (ReadStates MAX_STATES states_num s))"
| "step MAX_STATES L2 R2 (Call_Poll now) s = Inr (snd (Poll MAX_STATES now s))"

fun run :: "u32 \<Rightarrow> u32 \<Rightarrow> u32 \<Rightarrow> call list \<Rightarrow> GameController \<Rightarrow> fault + GameController" where
  "run MAX_STATES L2 R2 [] s = Inr s"
| "run MAX_STATES L2 R2 (c # cs) s =
     (case step MAX_STATES L2 R2 c s of Inl e \<Rightarrow> Inl e | Inr s' \<Rightarrow> run MAX_STATES L2 R2 cs s')"

section \<open>Example values\<close>

text \<open>
  Concrete inputs at which the theorems below are instantiated, with the capacity 64
  that the spec gives as an example: a sample with every field zero and both touch slots
  inactive; a burst of samples with the timestamps 1 to \<open>n\<close>; the controller that the
  constructor leaves when the object it initialises is connected with head 0 (its count,
  here 7 before the body runs, is set to 0 by the constructor); that controller after
  one button press at time 1000; and after the reader has then taken the press.
\<close>

definition zero_sample :: State where
  "zero_sample = \<lparr>buttonsState = 0, time = 0, axes = (\<lambda>_. 0),
     touchpad = [\<lparr>tp_state = False, tp_x = 0, tp_y = 0\<rparr>, \<lparr>tp_state = False, tp_x = 0, tp_y = 0\<rparr>]\<rparr>"

definition stamped :: "u64 \<Rightarrow> State" where
  "stamped t = zero_sample\<lparr>time := t\<rparr>"

definition burst :: "nat \<Rightarrow> State list" where
  "burst n = map (\<lambda>k. stamped (of_nat k)) [1..<Suc n]"

definition fresh :: "u32 \<Rightarrow> GameController" where
  "fresh MAX_STATES = GameController zero_sample
     \<lparr>m_connected = True, m_connected_count = 1, m_last_state = zero_sample,
      m_states_num = 7, m_first_state = 0,
      m_states = replicate (unat MAX_STATES) zero_sample,
      m_private = replicate (unat MAX_STATES) \<lparr>obtained = False\<rparr>\<rparr>"

definition pressed :: GameController where
  "pressed = CheckButton 64 1000 0 1 True (fresh 64)"

definition drained :: GameController where
  "drained = snd (ReadStates 64 64 pressed)"

section \<open>Lemmas\<close>

subsection \<open>Indices and pushes\<close>

lemma ring_inv_bounds:
  assumes "ring_inv C s"
  shows "0 < unat C" and "unat (m_first_state s) < unat C" and "unat (m_states_num s) \<le> unat C"
    and "unat C \<le> 2 ^ 31"
  using assms by (simp_all add: ring_inv_def word_less_nat_alt word_le_nat_alt)

lemma unat_index:
  assumes "ring_inv C s" and "i \<le> C"
  shows "unat ((m_first_state s + i) mod C) = slot C s (unat i)"
proof -
  have "unat (m_first_state s) < 2 ^ 31" "unat i \<le> 2 ^ 31"
    using ring_inv_bounds [OF assms(1)] assms(2) by (simp_all add: word_le_nat_alt)
  then have "unat (m_first_state s) + unat i < 2 ^ LENGTH(32)" by simp
  then have "unat (m_first_state s + i) = unat (m_first_state s) + unat i"
    by (simp add: unat_add_lem [THEN iffD1])
  then show ?thesis by (simp add: slot_def unat_mod)
qed

lemma slot_less: "ring_inv C s \<Longrightarrow> slot C s k < unat C"
  by (simp add: slot_def ring_inv_bounds)

lemma mod_shift_inj:
  fixes f j k n :: nat
  assumes "j < n" "k < n" "(f + j) mod n = (f + k) mod n"
  shows "j = k"
proof -
  have aux: "a = b" if "a \<le> b" "b < n" "(f + a) mod n = (f + b) mod n" for a b :: nat
  proof -
    from that(1) have "(f + b) - (f + a) = b - a" by simp
    moreover have "n dvd (f + b) - (f + a)"
      using that(3) by (metis mod_eq_dvd_iff_nat add_le_cancel_left that(1))
    ultimately have "n dvd b - a" by simp
    moreover have "b - a < n" using that(2) by simp
    ultimately have "b - a = 0" by (meson dvd_imp_le not_less zero_less_iff_neq_zero)
    with that(1) show ?thesis by simp
  qed
  show ?thesis
  proof (cases "j \<le> k")
    case True
    show ?thesis by (rule aux [OF True assms(2) assms(3)])
  next
    case False
    then have "k \<le> j" by simp
    from assms(3) have "(f + k) mod n = (f + j) mod n" by simp
    with \<open>k \<le> j\<close> assms(1) have "k = j" by (rule aux)
    then show ?thesis by simp
  qed
qed

lemma slot_inj: "ring_inv C s \<Longrightarrow> j < unat C \<Longrightarrow> k < unat C \<Longrightarrow> slot C s j = slot C s k \<Longrightarrow> j = k"
  unfolding slot_def by (rule mod_shift_inj)

lemma length_buffered [simp]: "length (buffered C s) = unat (m_states_num s)"
  by (simp add: buffered_def)

lemma buffered_nth:
  "k < unat (m_states_num s) \<Longrightarrow>
     buffered C s ! k = (m_states s ! slot C s k, obtained (m_private s ! slot C s k))"
  by (simp add: buffered_def)

lemma u32_unat_Suc: "(i :: u32) < n \<Longrightarrow> unat (i + 1) = Suc (unat i)"
proof -
  assume "i < n"
  then have "i + 1 \<noteq> 0"
    by (metis add_eq_0_iff2 word_n1_ge leD)
  then show ?thesis by (simp add: unatSuc add.commute)
qed

lemma slot_cong: "m_first_state s' = m_first_state s \<Longrightarrow> slot C s' = slot C s"
  by (simp add: slot_def fun_eq_iff)

lemma AddState_not_full:
  assumes inv: "ring_inv C s" and less: "m_states_num s < C"
  defines "n \<equiv> unat (m_states_num s)"
  shows "AddState C x s =
           s\<lparr>m_states := (m_states s)[slot C s n := x], m_last_state := x,
             m_private := (m_private s)[slot C s n := (m_private s ! slot C s n)\<lparr>obtained := False\<rparr>],
             m_states_num := m_states_num s + 1\<rparr>"
    and "unat (m_states_num s + 1) = Suc n"
proof -
  from less have "\<not> C \<le> m_states_num s" by simp
  moreover from less have "m_states_num s \<le> C" by simp
  then have "unat ((m_first_state s + m_states_num s) mod C) = slot C s n"
    unfolding n_def by (rule unat_index [OF inv])
  ultimately show "AddState C x s =
           s\<lparr>m_states := (m_states s)[slot C s n := x], m_last_state := x,
             m_private := (m_private s)[slot C s n := (m_private s ! slot C s n)\<lparr>obtained := False\<rparr>],
             m_states_num := m_states_num s + 1\<rparr>"
    by (simp add: AddState_def Let_def)
  show "unat (m_states_num s + 1) = Suc n"
    unfolding n_def using less by (rule u32_unat_Suc)
qed

lemma AddState_full:
  assumes inv: "ring_inv C s" and full: "m_states_num s = C"
  shows "AddState C x s =
           s\<lparr>m_first_state := (m_first_state s + 1) mod C,
             m_states := (m_states s)[slot C s 0 := x], m_last_state := x,
             m_private := (m_private s)[slot C s 0 := (m_private s ! slot C s 0)\<lparr>obtained := False\<rparr>],
             m_states_num := C\<rparr>"
    and "unat ((m_first_state s + 1) mod C) = slot C s 1"
proof -
  let ?s1 = "s\<lparr>m_states_num := C - 1, m_first_state := (m_first_state s + 1) mod C\<rparr>"
  note b = ring_inv_bounds [OF inv]
  have one: "(1 :: u32) \<le> C" using inv by (simp add: ring_inv_def word_le_nat_alt word_less_nat_alt)
  show f1: "unat ((m_first_state s + 1) mod C) = slot C s 1"
    using unat_index [OF inv one] by simp
  have c1: "unat (C - 1) = unat C - 1"
    using one by (simp add: unat_sub)
  have le: "C - 1 \<le> C" using c1 by (simp add: word_le_nat_alt)
  with inv have inv1: "ring_inv C ?s1"
    by (simp add: ring_inv_def word_mod_less_divisor)
  from unat_index [OF inv1 le]
  have "unat (((m_first_state s + 1) mod C + (C - 1)) mod C) = slot C ?s1 (unat C - 1)"
    by (simp add: c1)
  also have "\<dots> = ((unat (m_first_state s) + 1) mod unat C + (unat C - 1)) mod unat C"
    using f1 by (simp add: slot_def)
  also have "\<dots> = (unat (m_first_state s) + 1 + (unat C - 1)) mod unat C"
    by (simp add: mod_add_left_eq)
  also have "\<dots> = (unat (m_first_state s) + unat C) mod unat C"
    using b(1) by simp
  also have "\<dots> = slot C s 0"
    by (simp add: slot_def)
  finally have idx: "unat (((m_first_state s + 1) mod C + (C - 1)) mod C) = slot C s 0" .
  show "AddState C x s =
           s\<lparr>m_first_state := (m_first_state s + 1) mod C,
             m_states := (m_states s)[slot C s 0 := x], m_last_state := x,
             m_private := (m_private s)[slot C s 0 := (m_private s ! slot C s 0)\<lparr>obtained := False\<rparr>],
             m_states_num := C\<rparr>"
    using full idx by (simp add: AddState_def Let_def)
qed

lemma slot_shift:
  assumes "ring_inv C s" and "unat (m_first_state s') = slot C s 1"
  shows "slot C s' k = slot C s (Suc k)"
  using assms(2) by (simp add: slot_def mod_add_left_eq)

lemma ring_inv_AddState: "ring_inv C s \<Longrightarrow> ring_inv C (AddState C x s)"
proof -
  assume inv: "ring_inv C s"
  show ?thesis
  proof (cases "m_states_num s < C")
    case True
    then have "m_states_num s + 1 \<le> C" by (rule inc_le)
    with inv show ?thesis
      by (simp add: AddState_not_full(1) [OF inv True] ring_inv_def)
  next
    case False
    with inv have full: "m_states_num s = C" by (simp add: ring_inv_def)
    from inv show ?thesis
      by (simp add: AddState_full(1) [OF inv full] ring_inv_def word_mod_less_divisor)
  qed
qed

lemma buffered_AddState:
  assumes inv: "ring_inv C s"
  shows "buffered C (AddState C x s) =
           (if m_states_num s = C then tl (buffered C s) else buffered C s) @ [(x, False)]"
proof (cases "m_states_num s < C")
  case True
  let ?n = "unat (m_states_num s)"
  let ?s' = "AddState C x s"
  note eq = AddState_not_full [OF inv True]
  have sl: "slot C ?s' = slot C s"
    by (rule slot_cong) (simp add: eq(1))
  have st: "m_states ?s' = (m_states s)[slot C s ?n := x]"
    and pr: "m_private ?s' = (m_private s)[slot C s ?n := (m_private s ! slot C s ?n)\<lparr>obtained := False\<rparr>]"
    and nm: "unat (m_states_num ?s') = Suc ?n"
    by (simp_all add: eq)
  have nlt: "?n < unat C" using True by (simp add: word_less_nat_alt)
  have len: "slot C s ?n < length (m_states s)" "slot C s ?n < length (m_private s)"
    using inv slot_less [OF inv, of ?n] by (simp_all add: ring_inv_def)
  have old: "slot C s k \<noteq> slot C s ?n" if "k < ?n" for k
    using slot_inj [OF inv, of k ?n] that nlt by auto
  have "buffered C ?s' = buffered C s @ [(x, False)]"
  proof (rule nth_equalityI)
    show "length (buffered C ?s') = length (buffered C s @ [(x, False)])"
      by (simp add: nm)
  next
    fix k assume "k < length (buffered C ?s')"
    then have k: "k < Suc ?n" by (simp add: nm)
    show "buffered C ?s' ! k = (buffered C s @ [(x, False)]) ! k"
    proof (cases "k < ?n")
      case True
      then show ?thesis
        using old [OF True] k by (simp add: buffered_nth nm sl st pr nth_append)
    next
      case False
      with k have "k = ?n" by simp
      then show ?thesis
        using len by (simp add: buffered_nth nm sl st pr nth_append)
    qed
  qed
  moreover from True have "m_states_num s \<noteq> C" by simp
  ultimately show ?thesis by simp
next
  case False
  with inv have full: "m_states_num s = C" by (simp add: ring_inv_def)
  let ?s' = "AddState C x s"
  note eq = AddState_full [OF inv full]
  note b = ring_inv_bounds [OF inv]
  have sl: "slot C ?s' k = slot C s (Suc k)" for k
    by (rule slot_shift [OF inv]) (simp add: eq)
  have st: "m_states ?s' = (m_states s)[slot C s 0 := x]"
    and pr: "m_private ?s' = (m_private s)[slot C s 0 := (m_private s ! slot C s 0)\<lparr>obtained := False\<rparr>]"
    and nm: "m_states_num ?s' = C"
    by (simp_all add: eq)
  have len: "slot C s 0 < length (m_states s)" "slot C s 0 < length (m_private s)"
    using inv slot_less [OF inv, of 0] by (simp_all add: ring_inv_def)
  have wrap: "slot C s (unat C) = slot C s 0"
    by (simp add: slot_def)
  have old: "slot C s (Suc k) \<noteq> slot C s 0" if "Suc k < unat C" for k
    using slot_inj [OF inv, of "Suc k" 0] that by auto
  have "buffered C ?s' = tl (buffered C s) @ [(x, False)]"
  proof (rule nth_equalityI)
    show "length (buffered C ?s') = length (tl (buffered C s) @ [(x, False)])"
      using b(1) by (simp add: nm full)
  next
    fix k assume "k < length (buffered C ?s')"
    then have k: "k < unat C" by (simp add: nm)
    show "buffered C ?s' ! k = (tl (buffered C s) @ [(x, False)]) ! k"
    proof (cases "Suc k < unat C")
      case True
      then have "k < unat C - Suc 0" by simp
      then show ?thesis
        using old [OF True] k True
        by (simp add: buffered_nth nm sl st pr nth_append nth_tl full)
    next
      case False
      with k have last: "Suc k = unat C" by simp
      then have "\<not> k < unat C - Suc 0" "k - (unat C - Suc 0) = 0" by simp_all
      then show ?thesis
        using len wrap k last
        by (simp add: buffered_nth nm sl st pr nth_append full)
    qed
  qed
  with full show ?thesis by simp
qed

lemma buffered_mark:
  assumes inv: "ring_inv C s" and k: "k < unat (m_states_num s)"
  shows "buffered C (s\<lparr>m_private := (m_private s)[slot C s k := (m_private s ! slot C s k)\<lparr>obtained := True\<rparr>]\<rparr>)
           = (buffered C s)[k := (fst (buffered C s ! k), True)]"
    (is "buffered C ?s' = _")
proof (rule nth_equalityI)
  show "length (buffered C ?s') = length ((buffered C s)[k := (fst (buffered C s ! k), True)])"
    by simp
next
  fix j assume "j < length (buffered C ?s')"
  then have j: "j < unat (m_states_num s)" by simp
  note b = ring_inv_bounds [OF inv]
  have sl: "slot C ?s' = slot C s" by (rule slot_cong) simp
  have len: "slot C s k < length (m_private s)"
    using inv slot_less [OF inv, of k] by (simp add: ring_inv_def)
  show "buffered C ?s' ! j = (buffered C s)[k := (fst (buffered C s ! k), True)] ! j"
  proof (cases "j = k")
    case True
    with k len show ?thesis by (simp add: buffered_nth sl)
  next
    case False
    with slot_inj [OF inv, of j k] j k b(3) have "slot C s j \<noteq> slot C s k" by auto
    with False j k show ?thesis by (simp add: buffered_nth sl)
  qed
qed

lemma ring_inv_mark:
  "ring_inv C s \<Longrightarrow> ring_inv C (s\<lparr>m_private := (m_private s)[j := e]\<rparr>)"
  by (simp add: ring_inv_def)

lemma ReadStates_loop_drain:
  "ring_inv C s \<Longrightarrow> i \<le> m_states_num s \<Longrightarrow>
     (let d = drain (n - ret) (drop (unat i) (buffered C s));
          r = ReadStates_loop C n i (ret, out, s)
      in fst r = ret + int (length (fst d)) \<and> fst (snd r) = out @ fst d \<and>
         buffered C (snd (snd r)) = take (unat i) (buffered C s) @ snd d \<and>
         s\<lparr>m_private := m_private (snd (snd r))\<rparr> = snd (snd r) \<and>
         length (m_private (snd (snd r))) = length (m_private s))"
proof (induction C n i "(ret, out, s)" arbitrary: ret out s rule: ReadStates_loop.induct)
  case (1 C n i ret out s)
  note inv = \<open>ring_inv C s\<close>
  let ?k = "unat i"
  let ?v = "buffered C s"
  let ?x = "m_states s ! slot C s ?k"
  show ?case
  proof (cases "i < m_states_num s")
    case False
    with \<open>i \<le> m_states_num s\<close> have "i = m_states_num s" by simp
    then have "drop ?k ?v = []" by simp
    with False show ?thesis
      by (subst ReadStates_loop.simps) (simp add: Let_def)
  next
    case less: True
    then have k: "?k < unat (m_states_num s)" by (simp add: word_less_nat_alt)
    from less inv have "i \<le> C" by (auto simp: ring_inv_def)
    then have idx: "unat ((m_first_state s + i) mod C) = slot C s ?k"
      by (rule unat_index [OF inv])
    have suc: "unat (i + 1) = Suc ?k" using less by (rule u32_unat_Suc)
    have le': "i + 1 \<le> m_states_num s" using less by (rule inc_le)
    have dr: "drop ?k ?v = (?x, obtained (m_private s ! slot C s ?k)) # drop (Suc ?k) ?v"
      using k by (simp add: Cons_nth_drop_Suc [symmetric] buffered_nth)
    have whole: "take ?k ?v @ (?x, obtained (m_private s ! slot C s ?k)) # drop (Suc ?k) ?v = ?v"
      using append_take_drop_id [of ?k ?v] by (simp only: dr)
    have tk: "take (Suc ?k) ?v = take ?k ?v @ [(?x, obtained (m_private s ! slot C s ?k))]"
      using k by (simp add: take_Suc_conv_app_nth buffered_nth)
    show ?thesis
    proof (cases "n \<le> ret")
      case True
      with less show ?thesis
        by (subst ReadStates_loop.simps) (simp add: Let_def dr whole)
    next
      case budget: False
      show ?thesis
      proof (cases "obtained (m_private s ! slot C s ?k)")
        case True
        from True idx have "\<not> \<not> obtained (m_private s ! unat ((m_first_state s + i) mod C))"
          by simp
        from "1.hyps"(2) [OF less budget refl this inv le']
        show ?thesis
          using less budget True idx
          by (subst ReadStates_loop.simps) (simp add: Let_def dr suc tk)
      next
        case False
        let ?s2 = "s\<lparr>m_private := (m_private s)[slot C s ?k := (m_private s ! slot C s ?k)\<lparr>obtained := True\<rparr>]\<rparr>"
        let ?r2 = "ReadStates_loop C n (i + 1) (ret + 1, out @ [?x], ?s2)"
        let ?d2 = "drain (n - ret - 1) (drop (Suc ?k) ?v)"
        from False idx have no: "\<not> obtained (m_private s ! unat ((m_first_state s + i) mod C))"
          by simp
        have inv2: "ring_inv C ?s2" using inv by (rule ring_inv_mark)
        have le2: "i + 1 \<le> m_states_num ?s2" using le' by simp
        have v2: "buffered C ?s2 = ?v[?k := (?x, True)]"
          using buffered_mark [OF inv k] k by (simp add: buffered_nth)
        have d2: "drop (Suc ?k) (buffered C ?s2) = drop (Suc ?k) ?v"
          by (simp add: v2)
        have t2: "take (Suc ?k) (buffered C ?s2) = take ?k ?v @ [(?x, True)]"
          using k by (simp add: v2 take_Suc_conv_app_nth)
        have nr: "n - (ret + 1) = n - ret - 1" by simp
        have ih: "fst ?r2 = ret + 1 + int (length (fst ?d2))"
          "fst (snd ?r2) = (out @ [?x]) @ fst ?d2"
          "buffered C (snd (snd ?r2)) = (take ?k ?v @ [(?x, True)]) @ snd ?d2"
          "s\<lparr>m_private := m_private (snd (snd ?r2))\<rparr> = snd (snd ?r2)"
          "length (m_private (snd (snd ?r2))) = length (m_private s)"
          using "1.hyps"(1) [OF less budget refl no, unfolded idx, OF inv2 le2]
          unfolding Let_def suc d2 t2 nr by simp_all
        have dd: "drain (n - ret) (drop ?k ?v) = (?x # fst ?d2, (?x, True) # snd ?d2)"
          using budget False by (simp add: dr)
        show ?thesis
          using less budget no
          by (subst ReadStates_loop.simps) (simp add: Let_def dd idx ih)
      qed
    qed
  qed
qed

lemma ring_inv_fold: "ring_inv C s \<Longrightarrow> ring_inv C (fold (AddState C) xs s)"
  by (induction xs arbitrary: s) (simp_all add: ring_inv_AddState)

lemma samples_AddState:
  "ring_inv C s \<Longrightarrow>
     map fst (buffered C (AddState C x s)) =
       (if m_states_num s = C then tl (map fst (buffered C s)) else map fst (buffered C s)) @ [x]"
  by (simp add: buffered_AddState map_tl)

lemma samples_fold:
  assumes "ring_inv C s"
  shows "map fst (buffered C (fold (AddState C) xs s)) =
           drop (unat (m_states_num s) + length xs - unat C) (map fst (buffered C s) @ xs)"
  using assms
proof (induction xs arbitrary: s)
  case Nil
  then show ?case using ring_inv_bounds(3) [of C s] by simp
next
  case (Cons x xs)
  let ?v = "map fst (buffered C s)"
  note inv' = ring_inv_AddState [OF Cons.prems, of x]
  note ih = Cons.IH [OF inv']
  show ?case
  proof (cases "m_states_num s < C")
    case True
    then have "m_states_num s \<noteq> C" by simp
    moreover have "unat (m_states_num (AddState C x s)) = Suc (unat (m_states_num s))"
      by (simp add: AddState_not_full [OF Cons.prems True])
    ultimately show ?thesis
      by (simp add: ih samples_AddState [OF Cons.prems])
  next
    case False
    with Cons.prems have full: "m_states_num s = C" by (simp add: ring_inv_def)
    have pos: "0 < unat C" by (rule ring_inv_bounds(1) [OF Cons.prems])
    have len: "length ?v = unat C" by (simp add: full)
    with pos obtain y ys where v: "?v = y # ys" by (cases ?v) auto
    with len have lys: "Suc (length ys) = unat C" by simp
    have num': "m_states_num (AddState C x s) = C"
      by (simp add: AddState_full(1) [OF Cons.prems full])
    have "map fst (buffered C (fold (AddState C) (x # xs) s)) =
            drop (unat C + length xs - unat C) ((tl ?v @ [x]) @ xs)"
      by (simp add: ih samples_AddState [OF Cons.prems] full num')
    also have "\<dots> = drop (length xs) (ys @ x # xs)"
      by (simp add: v)
    also have "\<dots> = drop (Suc (length xs)) (?v @ x # xs)"
      by (simp add: v)
    also have "\<dots> = drop (unat (m_states_num s) + length (x # xs) - unat C) (?v @ x # xs)"
      by (simp add: full)
    finally show ?thesis .
  qed
qed

lemma ring_inv_fresh: "0 < C \<Longrightarrow> unat C \<le> 2 ^ 31 \<Longrightarrow> ring_inv C (fresh C)"
  by (simp add: ring_inv_def fresh_def GameController_def)

subsection \<open>Batch reads\<close>

text \<open>The list-level loop in terms of the pending samples.\<close>

lemma drain_returned: "fst (drain n v) = take (nat n) (map fst (filter (\<lambda>p. \<not> snd p) v))"
proof (induction v arbitrary: n)
  case Nil
  show ?case by simp
next
  case (Cons p v)
  obtain x b where p: "p = (x, b)" by (cases p)
  show ?case
  proof (cases "n \<le> 0")
    case True
    then show ?thesis by (simp add: p)
  next
    case False
    then have "nat n = Suc (nat (n - 1))" by simp
    with False show ?thesis by (simp add: p Cons.IH)
  qed
qed

lemma drain_samples: "map fst (snd (drain n v)) = map fst v"
  by (induction n v rule: drain.induct) simp_all

lemma drain_rest:
  "map fst (filter (\<lambda>p. \<not> snd p) (snd (drain n v))) = drop (nat n) (map fst (filter (\<lambda>p. \<not> snd p) v))"
proof (induction v arbitrary: n)
  case Nil
  show ?case by simp
next
  case (Cons p v)
  obtain x b where p: "p = (x, b)" by (cases p)
  show ?case
  proof (cases "n \<le> 0")
    case True
    then show ?thesis by (simp add: p)
  next
    case False
    then have "nat n = Suc (nat (n - 1))" by simp
    with False show ?thesis by (simp add: p Cons.IH)
  qed
qed

lemma drain_none: "list_all snd v \<Longrightarrow> drain n v = ([], v)"
  by (induction n v rule: drain.induct) simp_all

lemma ReadStates_ring:
  fixes n :: int
  assumes inv: "ring_inv C s" and conn: "m_connected s" and ne: "m_states_num s \<noteq> 0"
  defines "d \<equiv> drain n (buffered C s)"
  shows "fst (ReadStates C n s) = (int (length (fst d)), fst d, True, m_connected_count s)"
    and "buffered C (snd (ReadStates C n s)) = snd d"
    and "s\<lparr>m_private := m_private (snd (ReadStates C n s))\<rparr> = snd (ReadStates C n s)"
    and "length (m_private (snd (ReadStates C n s))) = length (m_private s)"
proof -
  let ?r = "ReadStates_loop C n 0 (0, [], s)"
  have rs: "ReadStates C n s = ((fst ?r, fst (snd ?r), True, m_connected_count s), snd (snd ?r))"
    using conn ne by (simp add: ReadStates_def split_beta)
  from ReadStates_loop_drain [OF inv, of 0 n 0 "[]"]
  have l: "fst ?r = int (length (fst d))" "fst (snd ?r) = fst d" "buffered C (snd (snd ?r)) = snd d"
    "s\<lparr>m_private := m_private (snd (snd ?r))\<rparr> = snd (snd ?r)"
    "length (m_private (snd (snd ?r))) = length (m_private s)"
    by (simp_all add: Let_def d_def)
  show "fst (ReadStates C n s) = (int (length (fst d)), fst d, True, m_connected_count s)"
    by (simp add: rs l)
  show "buffered C (snd (ReadStates C n s)) = snd d" by (simp add: rs l)
  show "s\<lparr>m_private := m_private (snd (ReadStates C n s))\<rparr> = snd (ReadStates C n s)"
    by (simp add: rs l)
  show "length (m_private (snd (ReadStates C n s))) = length (m_private s)"
    by (simp add: rs l)
qed

lemma ReadStates_disconnected:
  "\<not> m_connected s \<Longrightarrow> ReadStates C n s = ((0, [], False, m_connected_count s), s)"
  by (simp add: ReadStates_def)

lemma ReadStates_empty:
  "m_connected s \<Longrightarrow> m_states_num s = 0 \<Longrightarrow>
     ReadStates C n s = ((1, [m_last_state s], True, m_connected_count s), s)"
  by (simp add: ReadStates_def)

lemma ReadStates_pending:
  fixes n :: int
  assumes inv: "ring_inv C s" and ne: "m_states_num s \<noteq> 0"
  defines "k \<equiv> (if m_connected s then nat n else 0)"
  shows "fst (snd (fst (ReadStates C n s))) = take k (pending C s)"
    and "fst (fst (ReadStates C n s)) = int (length (take k (pending C s)))"
    and "pending C (snd (ReadStates C n s)) = drop k (pending C s)"
    and "map fst (buffered C (snd (ReadStates C n s))) = map fst (buffered C s)"
proof -
  have "fst (snd (fst (ReadStates C n s))) = take k (pending C s) \<and>
        fst (fst (ReadStates C n s)) = int (length (take k (pending C s))) \<and>
        pending C (snd (ReadStates C n s)) = drop k (pending C s) \<and>
        map fst (buffered C (snd (ReadStates C n s))) = map fst (buffered C s)"
  proof (cases "m_connected s")
    case True
    note r = ReadStates_ring [OF inv True ne, of n]
    from True show ?thesis
      by (simp add: r(1,2) pending_def k_def drain_returned drain_rest drain_samples)
  next
    case False
    then show ?thesis by (simp add: ReadStates_disconnected k_def)
  qed
  then show "fst (snd (fst (ReadStates C n s))) = take k (pending C s)"
    and "fst (fst (ReadStates C n s)) = int (length (take k (pending C s)))"
    and "pending C (snd (ReadStates C n s)) = drop k (pending C s)"
    and "map fst (buffered C (snd (ReadStates C n s))) = map fst (buffered C s)"
    by simp_all
qed

lemma ReadStates_loop_frame:
  "let r = ReadStates_loop C n i (ret, out, s); s' = snd (snd r)
   in s\<lparr>m_private := m_private s'\<rparr> = s' \<and> length (m_private s') = length (m_private s) \<and>
      set out \<subseteq> set (fst (snd r)) \<and>
      (\<forall>j<length (m_private s). obtained (m_private s' ! j) \<noteq> obtained (m_private s ! j) \<longrightarrow>
         \<not> obtained (m_private s ! j) \<and> m_states s ! j \<in> set (fst (snd r)))"
proof (induction C n i "(ret, out, s)" arbitrary: ret out s rule: ReadStates_loop.induct)
  case (1 C n i ret out s)
  let ?idx = "unat ((m_first_state s + i) mod C)"
  show ?case
  proof (cases "i < m_states_num s \<and> \<not> n \<le> ret")
    case False
    then show ?thesis
      by (subst ReadStates_loop.simps) (auto simp: Let_def)
  next
    case True
    then have less: "i < m_states_num s" and budget: "\<not> n \<le> ret" by simp_all
    show ?thesis
    proof (cases "obtained (m_private s ! ?idx)")
      case True
      then have "\<not> \<not> obtained (m_private s ! ?idx)" by simp
      note ih = "1.hyps"(2) [OF less budget refl this]
      have r: "ReadStates_loop C n i (ret, out, s) = ReadStates_loop C n (i + 1) (ret, out, s)"
        using less budget True by (subst ReadStates_loop.simps) (simp add: Let_def)
      show ?thesis unfolding r by (rule ih)
    next
      case False
      let ?s2 = "s\<lparr>m_private := (m_private s)[?idx := (m_private s ! ?idx)\<lparr>obtained := True\<rparr>]\<rparr>"
      let ?r2 = "ReadStates_loop C n (i + 1) (ret + 1, out @ [m_states s ! ?idx], ?s2)"
      let ?p' = "m_private (snd (snd ?r2))"
      note ih0 = "1.hyps"(1) [OF less budget refl False, unfolded Let_def]
      from conjunct1 [OF ih0]
      have ih1: "s\<lparr>m_private := ?p'\<rparr> = snd (snd ?r2)" by simp
      from conjunct1 [OF conjunct2 [OF ih0]]
      have ih2: "length ?p' = length (m_private s)" by simp
      from conjunct1 [OF conjunct2 [OF conjunct2 [OF ih0]]]
      have ih3: "set (out @ [m_states s ! ?idx]) \<subseteq> set (fst (snd ?r2))" .
      note ih4 = conjunct2 [OF conjunct2 [OF conjunct2 [OF ih0]]]
      have flags: "\<not> obtained (m_private s ! j) \<and> m_states s ! j \<in> set (fst (snd ?r2))"
        if j: "j < length (m_private s)" and diff: "obtained (?p' ! j) \<noteq> obtained (m_private s ! j)"
        for j
      proof (cases "j = ?idx")
        case True
        with False ih3 show ?thesis by simp
      next
        case neq: False
        then have same: "m_private ?s2 ! j = m_private s ! j" by simp
        from j have "j < length (m_private ?s2)" by simp
        with ih4 have "obtained (?p' ! j) \<noteq> obtained (m_private ?s2 ! j) \<longrightarrow>
           \<not> obtained (m_private ?s2 ! j) \<and> m_states ?s2 ! j \<in> set (fst (snd ?r2))"
          by blast
        with diff show ?thesis unfolding same by simp
      qed
      from ih3 have sub: "set out \<subseteq> set (fst (snd ?r2))" by simp
      have r: "ReadStates_loop C n i (ret, out, s) = ?r2"
        using less budget False by (subst ReadStates_loop.simps) (simp add: Let_def)
      show ?thesis
        unfolding r Let_def using ih1 ih2 sub flags by blast
    qed
  qed
qed

lemma ReadStates_frame:
  "s\<lparr>m_private := m_private (snd (ReadStates C n s))\<rparr> = snd (ReadStates C n s)"
  and ReadStates_length: "length (m_private (snd (ReadStates C n s))) = length (m_private s)"
  using ReadStates_loop_frame [of C n 0 0 "[]" s]
  by (simp_all add: ReadStates_def Let_def split_beta)

lemma ReadStates_fields:
  "m_states_num (snd (ReadStates C n s)) = m_states_num s"
  "m_first_state (snd (ReadStates C n s)) = m_first_state s"
  "m_states (snd (ReadStates C n s)) = m_states s"
  "m_last_state (snd (ReadStates C n s)) = m_last_state s"
  "m_connected (snd (ReadStates C n s)) = m_connected s"
  "m_connected_count (snd (ReadStates C n s)) = m_connected_count s"
  using arg_cong [OF ReadStates_frame [where s = s and C = C and n = n], of m_states_num]
    arg_cong [OF ReadStates_frame [where s = s and C = C and n = n], of m_first_state]
    arg_cong [OF ReadStates_frame [where s = s and C = C and n = n], of m_states]
    arg_cong [OF ReadStates_frame [where s = s and C = C and n = n], of m_last_state]
    arg_cong [OF ReadStates_frame [where s = s and C = C and n = n], of m_connected]
    arg_cong [OF ReadStates_frame [where s = s and C = C and n = n], of m_connected_count]
  by simp_all

lemma ring_inv_ReadStates:
  assumes "ring_inv C s"
  shows "ring_inv C (snd (ReadStates C n s))"
  using assms by (simp add: ring_inv_def ReadStates_fields ReadStates_length)

lemma pending_AddState_subseq:
  assumes inv: "ring_inv C s"
  shows "subseq (pending C (AddState C x s)) (pending C s @ [x])"
proof -
  have "subseq (tl (buffered C s)) (buffered C s)"
    by (cases "buffered C s") (simp_all add: list_emb_Cons)
  then have "subseq (map fst (filter (\<lambda>p. \<not> snd p) (tl (buffered C s)))) (pending C s)"
    unfolding pending_def by (intro subseq_map) simp
  then show ?thesis
    by (simp add: pending_def buffered_AddState [OF inv])
qed

lemma AddState_nonempty: "0 < C \<Longrightarrow> m_states_num (AddState C x s) \<noteq> 0"
proof -
  assume pos: "0 < C"
  show ?thesis
  proof (cases "C \<le> m_states_num s")
    case True
    with pos show ?thesis by (simp add: AddState_def Let_def)
  next
    case False
    then have "m_states_num s < C" by simp
    then have "unat (m_states_num s + 1) = Suc (unat (m_states_num s))" by (rule u32_unat_Suc)
    then have "m_states_num s + 1 \<noteq> 0" by (metis unat_0 nat.distinct(1))
    with False show ?thesis by (simp add: AddState_def Let_def)
  qed
qed

lemma replay_subseq:
  assumes "ring_inv C s" and "m_states_num s \<noteq> 0"
  shows "subseq (concat (fst (replay C es s))) (pending C s @ pushes es)"
  using assms
proof (induction es arbitrary: s)
  case Nil
  show ?case by simp
next
  case (Cons e es)
  show ?case
  proof (cases e)
    case (Push x)
    have inv': "ring_inv C (AddState C x s)" using Cons.prems(1) by (rule ring_inv_AddState)
    have "0 < C" using Cons.prems(1) by (simp add: ring_inv_def)
    then have ne': "m_states_num (AddState C x s) \<noteq> 0" by (rule AddState_nonempty)
    have "subseq (concat (fst (replay C es (AddState C x s)))) (pending C (AddState C x s) @ pushes es)"
      by (rule Cons.IH [OF inv' ne'])
    also have "subseq (pending C (AddState C x s) @ pushes es) ((pending C s @ [x]) @ pushes es)"
      using pending_AddState_subseq [OF Cons.prems(1)] by (intro list_emb_append_mono) simp_all
    finally show ?thesis by (simp add: Push)
  next
    case (Drain n)
    let ?s' = "snd (ReadStates C n s)"
    define k where "k = (if m_connected s then nat n else 0)"
    note r = ReadStates_pending [OF Cons.prems, of n, folded k_def]
    have inv': "ring_inv C ?s'" using Cons.prems(1) by (rule ring_inv_ReadStates)
    have ne': "m_states_num ?s' \<noteq> 0"
      using Cons.prems(2) by (simp add: ReadStates_fields)
    have "subseq (concat (fst (replay C es ?s'))) (drop k (pending C s) @ pushes es)"
      using Cons.IH [OF inv' ne'] by (simp add: r(3))
    then have "subseq (take k (pending C s) @ concat (fst (replay C es ?s')))
                 (take k (pending C s) @ drop k (pending C s) @ pushes es)"
      by (simp add: subseq_append')
    moreover have "take k (pending C s) @ drop k (pending C s) @ pushes es = pending C s @ pushes es"
      by (simp only: append_assoc [symmetric] append_take_drop_id)
    ultimately show ?thesis
      by (simp add: Drain split_beta Let_def r(1))
  qed
qed

lemma ReadStates_flags:
  "\<forall>j<length (m_private s).
      obtained (m_private (snd (ReadStates C n s)) ! j) \<noteq> obtained (m_private s ! j) \<longrightarrow>
      \<not> obtained (m_private s ! j) \<and> m_states s ! j \<in> set (fst (snd (fst (ReadStates C n s))))"
proof (cases "m_connected s \<and> m_states_num s \<noteq> 0")
  case True
  let ?r = "ReadStates_loop C n 0 (0, [], s)"
  from True have "ReadStates C n s = ((fst ?r, fst (snd ?r), True, m_connected_count s), snd (snd ?r))"
    by (simp add: ReadStates_def split_beta)
  then have "snd (ReadStates C n s) = snd (snd ?r)" "fst (snd (fst (ReadStates C n s))) = fst (snd ?r)"
    by simp_all
  with ReadStates_loop_frame [of C n 0 0 "[]" s] show ?thesis
    unfolding Let_def by metis
next
  case False
  then have "snd (ReadStates C n s) = s"
    by (auto simp: ReadStates_def)
  then show ?thesis by simp
qed

lemma ReadStates_nothing_returned:
  assumes "fst (snd (fst (ReadStates C n s))) = []"
  shows "snd (ReadStates C n s) = s"
proof -
  let ?s' = "snd (ReadStates C n s)"
  have "m_private ?s' = m_private s"
  proof (rule nth_equalityI)
    show "length (m_private ?s') = length (m_private s)" by (rule ReadStates_length)
  next
    fix j assume "j < length (m_private ?s')"
    then have "j < length (m_private s)" by (simp add: ReadStates_length)
    with ReadStates_flags [where s = s and C = C and n = n] assms
    have "obtained (m_private ?s' ! j) = obtained (m_private s ! j)" by auto
    then show "m_private ?s' ! j = m_private s ! j" by simp
  qed
  with ReadStates_frame [where s = s and C = C and n = n] show ?thesis by simp
qed

subsection \<open>The mutators and the heartbeat\<close>

lemma GetLastState_AddState:
  assumes pos: "0 < C" and len: "length (m_states s) = unat C"
  shows "GetLastState C (AddState C x s) = x"
proof -
  let ?s1 = "if C \<le> m_states_num s
             then s\<lparr>m_states_num := C - 1, m_first_state := (m_first_state s + 1) mod C\<rparr> else s"
  let ?index = "(m_first_state ?s1 + m_states_num ?s1) mod C"
  have ne: "m_states_num (AddState C x s) \<noteq> 0" using pos by (rule AddState_nonempty)
  have "?index < C" using pos by (rule word_mod_less_divisor)
  then have "unat ?index < unat C" by (simp only: word_less_nat_alt)
  moreover have "length (m_states ?s1) = unat C" using len by simp
  ultimately have in_range: "unat ?index < length (m_states ?s1)" by simp
  have fields: "m_first_state (AddState C x s) = m_first_state ?s1"
    "m_states_num (AddState C x s) = m_states_num ?s1 + 1"
    "m_states (AddState C x s) = (m_states ?s1)[unat ?index := x]"
    by (simp_all add: AddState_def Let_def)
  have "(m_first_state ?s1 + (m_states_num ?s1 + 1) - 1) mod C = ?index"
    by (simp add: add.assoc [symmetric])
  then have "GetLastState C (AddState C x s) = (m_states ?s1)[unat ?index := x] ! unat ?index"
    using ne unfolding GetLastState_def Let_def fields by (simp only: if_False)
  with in_range show ?thesis by (simp only: nth_list_update_eq)
qed

lemma ring_inv_lengths: "ring_inv C s \<Longrightarrow> 0 < C \<and> length (m_states s) = unat C"
  by (simp add: ring_inv_def)

lemma GetLastState_push:
  "ring_inv C s \<Longrightarrow> GetLastState C (AddState C x s) = x"
  using GetLastState_AddState ring_inv_lengths by blast

lemma CheckButton_latest:
  assumes "ring_inv C s"
  shows "GetLastState C (CheckButton C now pad_id button is_pressed s) =
           (GetLastState C s)\<lparr>time := now,
              buttonsState := (if is_pressed then buttonsState (GetLastState C s) OR button
                               else buttonsState (GetLastState C s) AND NOT button)\<rparr>"
  by (simp add: CheckButton_def Let_def GetLastState_push [OF assms])

lemma Axis_latest:
  assumes "ring_inv C s"
  shows "GetLastState C (Axis C L2 R2 now pad_id axis val s) =
           (GetLastState C s)\<lparr>time := now, axes := (axes (GetLastState C s))(axis := val),
              buttonsState :=
                (if axis = TriggerLeft then
                   if 0 < sint val then buttonsState (GetLastState C s) OR L2
                   else buttonsState (GetLastState C s) AND NOT L2
                 else if axis = TriggerRight then
                   if 0 < sint val then buttonsState (GetLastState C s) OR R2
                   else buttonsState (GetLastState C s) AND NOT R2
                 else buttonsState (GetLastState C s))\<rparr>"
  by (simp add: Axis_def Let_def GetLastState_push [OF assms])

lemma SetTouchpadState_valid:
  assumes "0 \<le> touchIndex" and "touchIndex < 2"
  shows "SetTouchpadState C now touchIndex touchDown cx cy s =
           Inr (AddState C
             ((GetLastState C s)\<lparr>time := now,
                touchpad := (touchpad (GetLastState C s))[nat touchIndex :=
                  (touchpad (GetLastState C s) ! nat touchIndex)
                    \<lparr>tp_state := touchDown, tp_x := cx, tp_y := cy\<rparr>]\<rparr>) s)"
proof (cases "nat touchIndex < length (touchpad (GetLastState C s))")
  case True
  with assms show ?thesis by (simp add: SetTouchpadState_def Let_def)
next
  case False
  then have "length (touchpad (GetLastState C s)) \<le> nat touchIndex" by simp
  with assms show ?thesis by (simp add: SetTouchpadState_def Let_def list_update_beyond)
qed

lemma ring_inv_CheckButton: "ring_inv C s \<Longrightarrow> ring_inv C (CheckButton C now pad_id button is_pressed s)"
  by (simp add: CheckButton_def Let_def ring_inv_AddState)

lemma ring_inv_Axis: "ring_inv C s \<Longrightarrow> ring_inv C (Axis C L2 R2 now pad_id axis val s)"
  by (simp add: Axis_def Let_def ring_inv_AddState)

lemma ring_inv_SetTouchpadState:
  "ring_inv C s \<Longrightarrow> SetTouchpadState C now touchIndex touchDown cx cy s = Inr s' \<Longrightarrow> ring_inv C s'"
  by (auto simp: SetTouchpadState_def Let_def ring_inv_AddState split: if_splits)

lemma Poll_cases:
  "snd (Poll C now s) = s \<or> snd (Poll C now s) = AddState C (GetLastState C s) s"
  by (simp add: Poll_def Let_def)

lemma ring_inv_Poll: "ring_inv C s \<Longrightarrow> ring_inv C (snd (Poll C now s))"
  using Poll_cases [of C now s] by (auto simp: ring_inv_AddState)

lemma ring_inv_step:
  "ring_inv C s \<Longrightarrow> step C L2 R2 c s = Inr s' \<Longrightarrow> ring_inv C s'"
  by (cases c)
     (auto simp: ring_inv_CheckButton ring_inv_Axis ring_inv_ReadStates ring_inv_Poll
        dest: ring_inv_SetTouchpadState)

lemma last_index:
  assumes inv: "ring_inv C s" and ne: "m_states_num s \<noteq> 0"
  shows "unat ((m_first_state s + m_states_num s - 1) mod C) = slot C s (unat (m_states_num s) - 1)"
proof -
  have u: "unat (m_states_num s - 1) = unat (m_states_num s) - 1"
    using ne by (rule unat_minus_one)
  with ring_inv_bounds(3) [OF inv] have "unat (m_states_num s - 1) \<le> unat C" by simp
  then have "m_states_num s - 1 \<le> C" by (simp only: word_le_nat_alt)
  from unat_index [OF inv this] show ?thesis
    by (simp add: u add_diff_eq)
qed

lemma latest_buffered:
  assumes inv: "ring_inv C s" and ne: "m_states_num s \<noteq> 0"
  shows "last (buffered C s) =
           (m_states s ! unat ((m_first_state s + m_states_num s - 1) mod C),
            obtained (m_private s ! unat ((m_first_state s + m_states_num s - 1) mod C)))"
proof -
  from ne have pos: "0 < unat (m_states_num s)" by (simp add: unat_gt_0)
  then have "buffered C s \<noteq> []" by (metis length_buffered length_greater_0_conv)
  then have "last (buffered C s) = buffered C s ! (unat (m_states_num s) - 1)"
    by (simp add: last_conv_nth)
  with pos show ?thesis
    by (simp add: buffered_nth last_index [OF inv ne])
qed


lemma Poll_index: "(a - 1 + b :: u32) = a + b - 1"
  by simp

lemma Poll_push:
  assumes inv: "ring_inv C s" and conn: "m_connected s"
    and seen: "m_states_num s = 0 \<or> snd (last (buffered C s))"
    and idle: "100 \<le> (now - time (GetLastState C s)) div 1000"
  shows "snd (Poll C now s) = AddState C (GetLastState C s) s"
proof (cases "m_states_num s = 0")
  case True
  with conn idle show ?thesis by (simp add: Poll_def Let_def GetLastState_def)
next
  case False
  note l = latest_buffered [OF inv False]
  from seen False have "snd (last (buffered C s))" by simp
  with l have o: "obtained (m_private s ! unat ((m_first_state s + m_states_num s - 1) mod C))"
    by simp
  from idle False
  have i: "100 \<le> (now - time (m_states s ! unat ((m_first_state s + m_states_num s - 1) mod C))) div 1000"
    by (simp add: GetLastState_def Let_def)
  from conn False o i show ?thesis
    by (simp add: Poll_def Let_def Poll_index)
qed

lemma GetLastState_ReadStates: "GetLastState C (snd (ReadStates C n s)) = GetLastState C s"
  by (simp add: GetLastState_def ReadStates_fields)

lemma pending_empty_last:
  assumes "pending C s = []" and "m_states_num s \<noteq> 0"
  shows "snd (last (buffered C s))"
proof -
  have "buffered C s \<noteq> []"
    using assms(2) by (simp add: buffered_def unat_gt_0)
  then have "last (buffered C s) \<in> set (buffered C s)" by (rule last_in_set)
  moreover from assms(1) have "\<forall>p\<in>set (buffered C s). snd p"
    by (simp add: pending_def filter_empty_conv)
  ultimately show ?thesis by blast
qed

lemma drained_by_big_read:
  assumes inv: "ring_inv C s" and ne: "m_states_num s \<noteq> 0" and conn: "m_connected s"
    and big: "unat (m_states_num s) \<le> nat n"
  shows "pending C (snd (ReadStates C n s)) = []"
proof -
  have "length (pending C s) \<le> unat (m_states_num s)"
    unfolding pending_def length_map using length_filter_le [of _ "buffered C s"] by simp
  with big have "length (pending C s) \<le> nat n" by simp
  with conn show ?thesis by (simp add: ReadStates_pending(3) [OF inv ne])
qed

subsection \<open>The example values\<close>

lemma pressed_facts:
  "ring_inv 64 pressed" "m_connected pressed" "m_states_num pressed = 1"
  "GetLastState 64 pressed = zero_sample\<lparr>time := 1000, buttonsState := 1\<rparr>"
proof -
  have f: "ring_inv 64 (fresh 64)" by (rule ring_inv_fresh) simp_all
  show "ring_inv 64 pressed" unfolding pressed_def using f by (rule ring_inv_CheckButton)
  show "m_connected pressed" "m_states_num pressed = 1"
    by (simp_all add: pressed_def CheckButton_def AddState_def fresh_def GameController_def Let_def
        word_le_nat_alt)
  show "GetLastState 64 pressed = zero_sample\<lparr>time := 1000, buttonsState := 1\<rparr>"
    unfolding pressed_def CheckButton_latest [OF f]
    by (simp add: GetLastState_def fresh_def GameController_def zero_sample_def)
qed

subsection \<open>Runs of calls\<close>

lemma m_last_state_AddState: "m_last_state (AddState C x s) = x"
  by (simp add: AddState_def Let_def)

lemma cache_AddState: "ring_inv C s \<Longrightarrow> GetLastState C (AddState C x s) = m_last_state (AddState C x s)"
  by (simp add: GetLastState_push m_last_state_AddState)

lemma step_cases:
  assumes "step C L2 R2 c s = Inr s'"
  shows "s' = s \<or> (\<exists>x. s' = AddState C x s) \<or> (\<exists>n. s' = snd (ReadStates C n s))"
proof (cases c)
  case (Call_CheckButton now pad_id button is_pressed)
  with assms show ?thesis by (auto simp: CheckButton_def Let_def)
next
  case (Call_Axis now pad_id axis val)
  with assms show ?thesis by (auto simp: Axis_def Let_def)
next
  case (Call_SetTouchpadState now touchIndex touchDown cx cy)
  with assms show ?thesis by (auto simp: SetTouchpadState_def Let_def split: if_splits)
next
  case Call_ReadState
  with assms show ?thesis by simp
next
  case (Call_ReadStates n)
  with assms show ?thesis by auto
next
  case (Call_Poll now)
  with assms Poll_cases [of C now s] show ?thesis by auto
qed

lemma step_nonempty:
  assumes "0 < C" and "m_states_num s \<noteq> 0" and "step C L2 R2 c s = Inr s'"
  shows "m_states_num s' \<noteq> 0"
  using step_cases [OF assms(3)] assms(1,2)
  by (auto simp: AddState_nonempty ReadStates_fields)

lemma run_nonempty:
  "0 < C \<Longrightarrow> m_states_num s \<noteq> 0 \<Longrightarrow> run C L2 R2 cs s = Inr s' \<Longrightarrow> m_states_num s' \<noteq> 0"
proof (induction cs arbitrary: s)
  case Nil
  then show ?case by simp
next
  case (Cons c cs)
  from Cons.prems(3) obtain s1 where s1: "step C L2 R2 c s = Inr s1" and r: "run C L2 R2 cs s1 = Inr s'"
    by (auto split: sum.splits)
  from Cons.prems(1,2) s1 have "m_states_num s1 \<noteq> 0" by (rule step_nonempty)
  with Cons.prems(1) show ?case using r by (rule Cons.IH)
qed

lemma step_cache:
  assumes inv: "ring_inv C s" and c: "GetLastState C s = m_last_state s" and st: "step C L2 R2 c s = Inr s'"
  shows "GetLastState C s' = m_last_state s'"
  using step_cases [OF st] inv c
  by (auto simp: cache_AddState GetLastState_ReadStates ReadStates_fields)

lemma run_cache:
  "ring_inv C s \<Longrightarrow> GetLastState C s = m_last_state s \<Longrightarrow> run C L2 R2 cs s = Inr s' \<Longrightarrow>
     ring_inv C s' \<and> GetLastState C s' = m_last_state s'"
proof (induction cs arbitrary: s)
  case Nil
  then show ?case by simp
next
  case (Cons c cs)
  from Cons.prems(3) obtain s1 where s1: "step C L2 R2 c s = Inr s1" and r: "run C L2 R2 cs s1 = Inr s'"
    by (auto split: sum.splits)
  have "ring_inv C s1" using Cons.prems(1) s1 by (rule ring_inv_step)
  moreover have "GetLastState C s1 = m_last_state s1" using Cons.prems(1,2) s1 by (rule step_cache)
  ultimately show ?case using r by (rule Cons.IH)
qed

lemma Poll_keeps_cache:
  assumes "ring_inv C s" and "GetLastState C s = m_last_state s"
  shows "m_last_state (snd (Poll C now s)) = m_last_state s"
  using Poll_cases [of C now s] assms(2) by (auto simp: m_last_state_AddState)

subsection \<open>Button masks\<close>

lemma u32_mask_bits:
  fixes b m :: u32
  shows "(b OR m) AND m = m" "(b AND NOT m) AND m = 0"
    "(b OR m) AND NOT m = b AND NOT m" "(b AND NOT m) AND NOT m = b AND NOT m"
  by (auto simp: bit_eq_iff bit_simps)

lemma drained_facts:
  "ring_inv 64 drained" "m_connected drained" "m_states_num drained \<noteq> 0" "pending 64 drained = []"
  "m_connected_count drained = 1"
proof -
  show "ring_inv 64 drained" unfolding drained_def using pressed_facts(1) by (rule ring_inv_ReadStates)
  show "m_connected drained" "m_states_num drained \<noteq> 0"
    by (simp_all add: drained_def ReadStates_fields pressed_facts)
  show "pending 64 drained = []"
    unfolding drained_def by (rule drained_by_big_read) (simp_all add: pressed_facts)
  show "m_connected_count drained = 1"
    by (simp add: drained_def ReadStates_fields pressed_def CheckButton_def AddState_def fresh_def
        GameController_def Let_def)
qed

lemma SetTouchpadState_high_index:
  "2 \<le> touchIndex \<Longrightarrow> SetTouchpadState MAX_STATES now touchIndex touchDown cx cy s = Inr s"
  by (simp add: SetTouchpadState_def)

lemma fresh_empty: "buffered C (fresh C) = []"
  by (simp add: buffered_def fresh_def GameController_def)

subsection \<open>Histories that start with a push\<close>

lemma replay_push_subseq:
  assumes inv: "ring_inv C s"
  shows "subseq (concat (fst (replay C (Push x # es) s))) (pending C s @ x # pushes es)"
proof -
  have inv': "ring_inv C (AddState C x s)" using inv by (rule ring_inv_AddState)
  have "0 < C" using inv by (simp add: ring_inv_def)
  then have ne': "m_states_num (AddState C x s) \<noteq> 0" by (rule AddState_nonempty)
  have "subseq (concat (fst (replay C es (AddState C x s)))) (pending C (AddState C x s) @ pushes es)"
    using inv' ne' by (rule replay_subseq)
  also have "subseq (pending C (AddState C x s) @ pushes es) ((pending C s @ [x]) @ pushes es)"
    using pending_AddState_subseq [OF inv] by (intro list_emb_append_mono) simp_all
  finally show ?thesis by simp
qed

subsection \<open>The lock\<close>

lemma locked_fields: "list_all is_field_access tr \<Longrightarrow> locked_throughout tr True"
  by (induction tr) (auto split: access.splits)

lemma locked_append:
  "list_all is_field_access tr \<Longrightarrow> locked_throughout (tr @ tr') True = locked_throughout tr' True"
  by (induction tr) (auto split: access.splits)

lemma GetLastState_fields: "list_all is_field_access (GetLastState_accesses s)"
  by (simp add: GetLastState_accesses_def)

lemma AddState_fields: "list_all is_field_access (AddState_accesses C s)"
  by (simp add: AddState_accesses_def)

lemma ReadStates_loop_fields: "list_all is_field_access (ReadStates_loop_accesses C n i (ret, s))"
proof (induction C n i "(ret, s)" arbitrary: ret s rule: ReadStates_loop_accesses.induct)
  case (1 C n i ret s)
  show ?case
    using "1.hyps"
    by (subst ReadStates_loop_accesses.simps) (auto simp: Let_def)
qed

lemma ReadState_locked: "locked_throughout (ReadState_accesses s) False"
  by (simp add: ReadState_accesses_def locked_append GetLastState_fields)

lemma ReadStates_locked: "locked_throughout (ReadStates_accesses C n s) False"
  by (simp add: ReadStates_accesses_def locked_append ReadStates_loop_fields)

lemma mutator_locked:
  "locked_throughout ([Lock] @ GetLastState_accesses s @ AddState_accesses C s @ [Unlock]) False"
  by (simp add: locked_append GetLastState_fields AddState_fields)

section \<open>The claims\<close>

text \<open>
  C1 (empty-ring echo), as amended. In a connected state whose count is 0, \<open>ReadStates\<close>
  returns exactly one entry, the cached \<open>m_last_state\<close>, whatever \<open>states_num\<close> is, and
  leaves the object unchanged, so every further call does the same until a push. Reading
  does not lower the count: in a connected state with a non-empty ring whose samples
  have all been returned, \<open>ReadStates\<close> returns no entry and leaves the object unchanged.
\<close>

theorem ReadStates_echo_only_before_first_push:
  assumes "m_connected s"
  shows "(m_states_num s = 0 \<longrightarrow>
            ReadStates MAX_STATES n s = ((1, [m_last_state s], True, m_connected_count s), s)) \<and>
         (ring_inv MAX_STATES s \<and> m_states_num s \<noteq> 0 \<and> pending MAX_STATES s = [] \<longrightarrow>
            ReadStates MAX_STATES n s = ((0, [], True, m_connected_count s), s))"
proof (intro conjI impI)
  assume "m_states_num s = 0"
  with assms show "ReadStates MAX_STATES n s = ((1, [m_last_state s], True, m_connected_count s), s)"
    by (rule ReadStates_empty)
next
  assume a: "ring_inv MAX_STATES s \<and> m_states_num s \<noteq> 0 \<and> pending MAX_STATES s = []"
  let ?r = "ReadStates MAX_STATES n s"
  from a have inv: "ring_inv MAX_STATES s" and ne: "m_states_num s \<noteq> 0" by simp_all
  have out: "fst (snd (fst ?r)) = []"
    using ReadStates_pending(1) [OF inv ne, of n] a by simp
  have num: "fst (fst ?r) = 0"
    using ReadStates_pending(2) [OF inv ne, of n] a by simp
  have st: "snd ?r = s" using out by (rule ReadStates_nothing_returned)
  have conn: "snd (snd (fst ?r)) = (True, m_connected_count s)"
    using assms by (simp add: ReadStates_def split_beta Let_def)
  show "?r = ((0, [], True, m_connected_count s), s)"
    using out num st conn by (metis prod.collapse)
qed

theorem ReadStates_echo_only_before_first_push_witness:
  "m_connected (fresh 64) \<and> m_states_num (fresh 64) = 0 \<and>
   ReadStates 64 16 (fresh 64) = ((1, [zero_sample], True, 1), fresh 64) \<and>
   m_connected drained \<and> ring_inv 64 drained \<and> m_states_num drained \<noteq> 0 \<and> pending 64 drained = [] \<and>
   ReadStates 64 16 drained = ((0, [], True, 1), drained)"
proof -
  have c: "m_connected (fresh 64)" and e: "m_states_num (fresh 64) = 0"
    and l: "m_last_state (fresh 64) = zero_sample" and k: "m_connected_count (fresh 64) = 1"
    by (simp_all add: fresh_def GameController_def)
  from ReadStates_echo_only_before_first_push [OF c, of 64 16] e
  have "ReadStates 64 16 (fresh 64) = ((1, [zero_sample], True, 1), fresh 64)"
    by (simp add: l k)
  moreover from ReadStates_echo_only_before_first_push [OF drained_facts(2), of 64 16] drained_facts
  have "ReadStates 64 16 drained = ((0, [], True, 1), drained)"
    by simp
  ultimately show ?thesis using c e drained_facts by blast
qed

text \<open>
  C1 as stated fails: after one button press the first \<open>ReadStates\<close> returns the press,
  the ring is then fully drained, and the second and third \<open>ReadStates\<close> return no entry
  (not one entry equal to the last pushed sample).
\<close>

theorem ReadStates_after_drain_counterexample:
  "m_connected pressed \<and>
   fst (ReadStates 64 64 pressed) = (1, [zero_sample\<lparr>time := 1000, buttonsState := 1\<rparr>], True, 1) \<and>
   fst (ReadStates 64 64 (snd (ReadStates 64 64 pressed))) = (0, [], True, 1) \<and>
   fst (ReadStates 64 64 (snd (ReadStates 64 64 (snd (ReadStates 64 64 pressed))))) = (0, [], True, 1)"
  by (simp add: pressed_def ReadStates_def ReadStates_loop.simps CheckButton_def AddState_def
      GetLastState_def fresh_def GameController_def zero_sample_def Let_def word_le_nat_alt
      word_less_nat_alt)

text \<open>
  C2 (heartbeat), as amended. In a connected state in which the latest sample is at least
  100 ms old (\<open>(now - time) / 1000 \<ge> 100\<close>, in \<open>u64\<close> arithmetic) and, when the ring is
  non-empty, has already been returned, \<open>Poll\<close> returns 100 and pushes
  \<open>GetLastState()\<close> as it is: a new, not yet returned entry at the end of the ring whose
  fields, the timestamp included, are those of the previous latest sample. The timestamp
  is not refreshed.
\<close>

theorem Poll_heartbeat:
  assumes "ring_inv MAX_STATES s" and "m_connected s"
    and "m_states_num s = 0 \<or> snd (last (buffered MAX_STATES s))"
    and "100 \<le> (now - time (GetLastState MAX_STATES s)) div 1000"
  shows "Poll MAX_STATES now s = (100, AddState MAX_STATES (GetLastState MAX_STATES s) s) \<and>
         buffered MAX_STATES (snd (Poll MAX_STATES now s)) =
           (if m_states_num s = MAX_STATES then tl (buffered MAX_STATES s) else buffered MAX_STATES s)
             @ [(GetLastState MAX_STATES s, False)] \<and>
         GetLastState MAX_STATES (snd (Poll MAX_STATES now s)) = GetLastState MAX_STATES s \<and>
         time (GetLastState MAX_STATES (snd (Poll MAX_STATES now s))) = time (GetLastState MAX_STATES s)"
proof -
  note p = Poll_push [OF assms]
  have "fst (Poll MAX_STATES now s) = 100" by (simp add: Poll_def)
  with p have "Poll MAX_STATES now s = (100, AddState MAX_STATES (GetLastState MAX_STATES s) s)"
    by (metis prod.collapse)
  moreover have "buffered MAX_STATES (snd (Poll MAX_STATES now s)) =
      (if m_states_num s = MAX_STATES then tl (buffered MAX_STATES s) else buffered MAX_STATES s)
        @ [(GetLastState MAX_STATES s, False)]"
    unfolding p by (rule buffered_AddState [OF assms(1)])
  moreover have "GetLastState MAX_STATES (snd (Poll MAX_STATES now s)) = GetLastState MAX_STATES s"
    unfolding p by (rule GetLastState_push [OF assms(1)])
  ultimately show ?thesis by simp
qed

theorem Poll_heartbeat_witness:
  "ring_inv 64 (snd (ReadStates 64 64 pressed)) \<and> m_connected (snd (ReadStates 64 64 pressed)) \<and>
   snd (last (buffered 64 (snd (ReadStates 64 64 pressed)))) \<and>
   (100 :: u64) \<le> (101000 - time (GetLastState 64 (snd (ReadStates 64 64 pressed)))) div 1000 \<and>
   Poll 64 101000 (snd (ReadStates 64 64 pressed)) =
     (100, AddState 64 (zero_sample\<lparr>time := 1000, buttonsState := 1\<rparr>) (snd (ReadStates 64 64 pressed))) \<and>
   time (GetLastState 64 (snd (Poll 64 101000 (snd (ReadStates 64 64 pressed))))) = 1000"
proof -
  let ?w = "snd (ReadStates 64 64 pressed)"
  have inv: "ring_inv 64 ?w" using pressed_facts(1) by (rule ring_inv_ReadStates)
  have conn: "m_connected ?w" by (simp add: ReadStates_fields pressed_facts)
  have ne: "m_states_num ?w \<noteq> 0" by (simp add: ReadStates_fields pressed_facts)
  have "pending 64 ?w = []"
    by (rule drained_by_big_read) (simp_all add: pressed_facts)
  then have seen: "snd (last (buffered 64 ?w))" using ne by (rule pending_empty_last)
  have latest: "GetLastState 64 ?w = zero_sample\<lparr>time := 1000, buttonsState := 1\<rparr>"
    by (simp add: GetLastState_ReadStates pressed_facts)
  have idle: "(100 :: u64) \<le> (101000 - time (GetLastState 64 ?w)) div 1000"
    by (simp add: latest)
  from seen have seen': "m_states_num ?w = 0 \<or> snd (last (buffered 64 ?w))" by simp
  note th = Poll_heartbeat [OF inv conn seen' idle]
  from th have p: "Poll 64 101000 ?w = (100, AddState 64 (GetLastState 64 ?w) ?w)"
    by (rule conjunct1)
  from th have t: "time (GetLastState 64 (snd (Poll 64 101000 ?w))) = time (GetLastState 64 ?w)"
    by blast
  have t': "time (GetLastState 64 ?w) = 1000" by (simp add: latest)
  show ?thesis
    using inv conn seen idle p [unfolded latest] t [unfolded t'] by blast
qed

text \<open>
  C2 as stated fails: a button is pressed at time 1000 and read; \<open>Poll\<close> at time 101000
  pushes a second sample, and its timestamp is 1000, not 101000.
\<close>

theorem Poll_timestamp_counterexample:
  "m_connected (snd (ReadStates 64 64 pressed)) \<and>
   fst (ReadStates 64 64 pressed) = (1, [zero_sample\<lparr>time := 1000, buttonsState := 1\<rparr>], True, 1) \<and>
   m_states_num (snd (ReadStates 64 64 pressed)) = 1 \<and>
   m_states_num (snd (Poll 64 101000 (snd (ReadStates 64 64 pressed)))) = 2 \<and>
   time (GetLastState 64 (snd (Poll 64 101000 (snd (ReadStates 64 64 pressed))))) = 1000 \<and>
   time (GetLastState 64 (snd (Poll 64 101000 (snd (ReadStates 64 64 pressed))))) \<noteq> 101000"
  by (simp add: pressed_def Poll_def ReadStates_def ReadStates_loop.simps CheckButton_def AddState_def
      GetLastState_def fresh_def GameController_def zero_sample_def Let_def word_le_nat_alt
      word_less_nat_alt)

text \<open>
  C3 (out-of-range touch slot). The claim fails on the code for negative indices: the
  guard \<open>touchIndex < 2\<close> lets the index \<open>-1\<close> through, and the call is not a no-op but a
  store before the array \<open>touchpad[2]\<close> followed by a push.
\<close>

theorem SetTouchpadState_negative_index:
  "SetTouchpadState MAX_STATES now (- 1) touchDown cx cy s = Inl OutOfBoundsWrite \<and>
   SetTouchpadState MAX_STATES now (- 1) touchDown cx cy s \<noteq> Inr s"
  by (simp add: SetTouchpadState_def Let_def)

text \<open>
  C4 (ring bound). From a state that satisfies the ring invariant, after any sequence \<open>xs\<close>
  of \<open>AddState\<close> calls the count is at most \<open>MAX_STATES\<close>; a push into a full ring drops
  exactly the oldest sample and appends the new one; and the samples buffered after the
  pushes are the last \<open>MAX_STATES\<close> of the old samples followed by \<open>xs\<close>, in insertion order
  (so after \<open>MAX_STATES + k\<close> pushes into an empty ring, the last \<open>MAX_STATES\<close> pushed).
\<close>

theorem AddState_ring_bound:
  assumes "ring_inv MAX_STATES s"
  shows "m_states_num (fold (AddState MAX_STATES) xs s) \<le> MAX_STATES \<and>
         (m_states_num s = MAX_STATES \<longrightarrow>
            map fst (buffered MAX_STATES (AddState MAX_STATES x s)) =
              tl (map fst (buffered MAX_STATES s)) @ [x]) \<and>
         map fst (buffered MAX_STATES (fold (AddState MAX_STATES) xs s)) =
           drop (unat (m_states_num s) + length xs - unat MAX_STATES)
             (map fst (buffered MAX_STATES s) @ xs)"
proof (intro conjI impI)
  from ring_inv_fold [OF assms, of xs]
  show "m_states_num (fold (AddState MAX_STATES) xs s) \<le> MAX_STATES"
    by (simp add: ring_inv_def)
next
  assume "m_states_num s = MAX_STATES"
  then show "map fst (buffered MAX_STATES (AddState MAX_STATES x s)) =
               tl (map fst (buffered MAX_STATES s)) @ [x]"
    by (simp add: samples_AddState [OF assms])
next
  show "map fst (buffered MAX_STATES (fold (AddState MAX_STATES) xs s)) =
          drop (unat (m_states_num s) + length xs - unat MAX_STATES)
            (map fst (buffered MAX_STATES s) @ xs)"
    by (rule samples_fold [OF assms])
qed

theorem AddState_ring_bound_witness:
  "ring_inv 64 (fold (AddState 64) (burst 64) (fresh 64)) \<and>
   m_states_num (fold (AddState 64) (burst 64) (fresh 64)) = 64 \<and>
   map fst (buffered 64 (fold (AddState 64) (burst 64) (fresh 64))) = burst 64 \<and>
   map fst (buffered 64 (AddState 64 (stamped 65) (fold (AddState 64) (burst 64) (fresh 64)))) =
     tl (burst 64) @ [stamped 65] \<and>
   m_states_num (fold (AddState 64) [stamped 65, stamped 66, stamped 67, stamped 68, stamped 69]
      (fold (AddState 64) (burst 64) (fresh 64))) \<le> 64 \<and>
   map fst (buffered 64 (fold (AddState 64) [stamped 65, stamped 66, stamped 67, stamped 68, stamped 69]
      (fold (AddState 64) (burst 64) (fresh 64)))) =
     drop 5 (burst 64) @ [stamped 65, stamped 66, stamped 67, stamped 68, stamped 69]"
proof -
  let ?full = "fold (AddState 64) (burst 64) (fresh 64)"
  have inv0: "ring_inv 64 (fresh 64)" by (rule ring_inv_fresh) simp_all
  have num0: "unat (m_states_num (fresh 64)) = 0" by (simp add: fresh_def GameController_def)
  have len: "length (burst 64) = 64" by (simp add: burst_def)
  from AddState_ring_bound [OF inv0, of "burst 64"]
  have c: "map fst (buffered 64 ?full) = burst 64"
    by (simp add: fresh_empty num0 len)
  have inv: "ring_inv 64 ?full" using inv0 by (rule ring_inv_fold)
  have "unat (m_states_num ?full) = length (map fst (buffered 64 ?full))" by simp
  then have "unat (m_states_num ?full) = unat (64 :: u32)" unfolding c len by simp
  then have num: "m_states_num ?full = 64" by (simp only: word_unat_eq_iff)
  from AddState_ring_bound [OF inv, of "[stamped 65, stamped 66, stamped 67, stamped 68, stamped 69]" "stamped 65"]
    inv num c
  show ?thesis by (simp add: len)
qed

text \<open>
  C5 (one-shot consumption). Whenever the ring holds a sample, \<open>ReadStates\<close> returns the
  first \<open>states_num\<close> samples that were not returned before (none when disconnected) and
  exactly those stop being pending; when nothing is pending it returns 0 entries and
  changes nothing, however large \<open>states_num\<close> is. Over any history of pushes and reads,
  all that the reads return, in order, is a subsequence of the samples pending at the start
  followed by the pushed ones: no buffered sample is returned twice. The same holds from
  any state for a history that starts with a push. (With count 0 the reader returns the
  cached sample, which is not a buffered one: see C1.)
\<close>

theorem ReadStates_one_shot:
  assumes "ring_inv MAX_STATES s"
  shows "(m_states_num s \<noteq> 0 \<longrightarrow>
            subseq (concat (fst (replay MAX_STATES es s))) (pending MAX_STATES s @ pushes es) \<and>
            fst (snd (fst (ReadStates MAX_STATES n s))) =
              take (if m_connected s then nat n else 0) (pending MAX_STATES s) \<and>
            pending MAX_STATES (snd (ReadStates MAX_STATES n s)) =
              drop (if m_connected s then nat n else 0) (pending MAX_STATES s) \<and>
            (pending MAX_STATES s = [] \<longrightarrow>
               ReadStates MAX_STATES n s = ((0, [], m_connected s, m_connected_count s), s))) \<and>
         subseq (concat (fst (replay MAX_STATES (Push x # es) s)))
           (pending MAX_STATES s @ x # pushes es)"
proof (intro conjI impI)
  assume ne: "m_states_num s \<noteq> 0"
  show "subseq (concat (fst (replay MAX_STATES es s))) (pending MAX_STATES s @ pushes es)"
    using assms ne by (rule replay_subseq)
  show "fst (snd (fst (ReadStates MAX_STATES n s))) =
          take (if m_connected s then nat n else 0) (pending MAX_STATES s)"
    using assms ne by (rule ReadStates_pending(1))
  show "pending MAX_STATES (snd (ReadStates MAX_STATES n s)) =
          drop (if m_connected s then nat n else 0) (pending MAX_STATES s)"
    using assms ne by (rule ReadStates_pending(3))
  assume none: "pending MAX_STATES s = []"
  let ?r = "ReadStates MAX_STATES n s"
  have out: "fst (snd (fst ?r)) = []"
    using ReadStates_pending(1) [OF assms ne, of n] none by simp
  have num: "fst (fst ?r) = 0"
    using ReadStates_pending(2) [OF assms ne, of n] none by simp
  have st: "snd ?r = s" using out by (rule ReadStates_nothing_returned)
  have conn: "snd (snd (fst ?r)) = (m_connected s, m_connected_count s)"
    by (simp add: ReadStates_def split_beta Let_def)
  show "?r = ((0, [], m_connected s, m_connected_count s), s)"
    using out num st conn by (metis prod.collapse)
next
  show "subseq (concat (fst (replay MAX_STATES (Push x # es) s)))
          (pending MAX_STATES s @ x # pushes es)"
    using assms by (rule replay_push_subseq)
qed

theorem ReadStates_one_shot_witness:
  "ring_inv 64 drained \<and> m_states_num drained \<noteq> 0 \<and> pending 64 drained = [] \<and>
   ReadStates 64 1000 drained = ((0, [], m_connected drained, m_connected_count drained), drained) \<and>
   subseq (concat (fst (replay 64 [Drain 64, Push (stamped 7), Drain 64, Drain 64] drained))) [stamped 7]"
proof -
  note th = ReadStates_one_shot [OF drained_facts(1)]
  from th [of "[]" 1000] drained_facts(3,4)
  have "ReadStates 64 1000 drained = ((0, [], m_connected drained, m_connected_count drained), drained)"
    by blast
  moreover from th [of "[Drain 64, Push (stamped 7), Drain 64, Drain 64]" 0] drained_facts(3)
  have "subseq (concat (fst (replay 64 [Drain 64, Push (stamped 7), Drain 64, Drain 64] drained))) [stamped 7]"
    by (simp add: drained_facts(4))
  ultimately show ?thesis using drained_facts by blast
qed

text \<open>
  C6 (copy-forward). After \<open>CheckButton\<close>, \<open>Axis\<close> or \<open>SetTouchpadState\<close> (with a slot index
  0 or 1) the latest sample is the previous latest sample with the timestamp set to the
  clock and only the mutator's own field changed (for \<open>Axis\<close> on a trigger, also the L2 or
  R2 bits); \<open>SetTouchpadState\<close> with a slot index of 2 or more changes nothing. In
  particular after \<open>Axis\<close> and then \<open>CheckButton\<close> (pressed) the latest sample has the axis
  value and the button bits set, the other axes and the touch slots as before.
\<close>

theorem mutators_copy_forward:
  assumes "ring_inv MAX_STATES s"
  shows "GetLastState MAX_STATES (CheckButton MAX_STATES now pad_id button is_pressed s) =
           (GetLastState MAX_STATES s)\<lparr>time := now,
              buttonsState := (if is_pressed then buttonsState (GetLastState MAX_STATES s) OR button
                               else buttonsState (GetLastState MAX_STATES s) AND NOT button)\<rparr> \<and>
         GetLastState MAX_STATES (Axis MAX_STATES L2 R2 now pad_id axis val s) =
           (GetLastState MAX_STATES s)\<lparr>time := now,
              axes := (axes (GetLastState MAX_STATES s))(axis := val),
              buttonsState :=
                (if axis = TriggerLeft then
                   if 0 < sint val then buttonsState (GetLastState MAX_STATES s) OR L2
                   else buttonsState (GetLastState MAX_STATES s) AND NOT L2
                 else if axis = TriggerRight then
                   if 0 < sint val then buttonsState (GetLastState MAX_STATES s) OR R2
                   else buttonsState (GetLastState MAX_STATES s) AND NOT R2
                 else buttonsState (GetLastState MAX_STATES s))\<rparr> \<and>
         (0 \<le> touchIndex \<and> touchIndex < 2 \<longrightarrow>
            (case SetTouchpadState MAX_STATES now touchIndex touchDown cx cy s of
               Inl e \<Rightarrow> False
             | Inr s' \<Rightarrow>
                 GetLastState MAX_STATES s' =
                   (GetLastState MAX_STATES s)\<lparr>time := now,
                      touchpad := (touchpad (GetLastState MAX_STATES s))[nat touchIndex :=
                        (touchpad (GetLastState MAX_STATES s) ! nat touchIndex)
                          \<lparr>tp_state := touchDown, tp_x := cx, tp_y := cy\<rparr>]\<rparr>)) \<and>
         (2 \<le> touchIndex \<longrightarrow>
            SetTouchpadState MAX_STATES now touchIndex touchDown cx cy s = Inr s) \<and>
         (let latest = GetLastState MAX_STATES
                (CheckButton MAX_STATES now' pad_id' button True
                  (Axis MAX_STATES L2 R2 now pad_id axis val s))
          in axes latest axis = val \<and> buttonsState latest AND button = button \<and>
             touchpad latest = touchpad (GetLastState MAX_STATES s) \<and>
             (\<forall>a. a \<noteq> axis \<longrightarrow> axes latest a = axes (GetLastState MAX_STATES s) a))"
proof (intro conjI impI)
  show "GetLastState MAX_STATES (CheckButton MAX_STATES now pad_id button is_pressed s) =
           (GetLastState MAX_STATES s)\<lparr>time := now,
              buttonsState := (if is_pressed then buttonsState (GetLastState MAX_STATES s) OR button
                               else buttonsState (GetLastState MAX_STATES s) AND NOT button)\<rparr>"
    using assms by (rule CheckButton_latest)
  show "GetLastState MAX_STATES (Axis MAX_STATES L2 R2 now pad_id axis val s) =
           (GetLastState MAX_STATES s)\<lparr>time := now,
              axes := (axes (GetLastState MAX_STATES s))(axis := val),
              buttonsState :=
                (if axis = TriggerLeft then
                   if 0 < sint val then buttonsState (GetLastState MAX_STATES s) OR L2
                   else buttonsState (GetLastState MAX_STATES s) AND NOT L2
                 else if axis = TriggerRight then
                   if 0 < sint val then buttonsState (GetLastState MAX_STATES s) OR R2
                   else buttonsState (GetLastState MAX_STATES s) AND NOT R2
                 else buttonsState (GetLastState MAX_STATES s))\<rparr>"
    using assms by (rule Axis_latest)
next
  assume "0 \<le> touchIndex \<and> touchIndex < 2"
  then have "0 \<le> touchIndex" "touchIndex < 2" by simp_all
  from SetTouchpadState_valid [OF this]
  show "case SetTouchpadState MAX_STATES now touchIndex touchDown cx cy s of
               Inl e \<Rightarrow> False
             | Inr s' \<Rightarrow>
                 GetLastState MAX_STATES s' =
                   (GetLastState MAX_STATES s)\<lparr>time := now,
                      touchpad := (touchpad (GetLastState MAX_STATES s))[nat touchIndex :=
                        (touchpad (GetLastState MAX_STATES s) ! nat touchIndex)
                          \<lparr>tp_state := touchDown, tp_x := cx, tp_y := cy\<rparr>]\<rparr>"
    by (simp add: GetLastState_push [OF assms])
next
  assume "2 \<le> touchIndex"
  then show "SetTouchpadState MAX_STATES now touchIndex touchDown cx cy s = Inr s"
    by (rule SetTouchpadState_high_index)
next
  have inv': "ring_inv MAX_STATES (Axis MAX_STATES L2 R2 now pad_id axis val s)"
    using assms by (rule ring_inv_Axis)
  show "let latest = GetLastState MAX_STATES
                (CheckButton MAX_STATES now' pad_id' button True
                  (Axis MAX_STATES L2 R2 now pad_id axis val s))
          in axes latest axis = val \<and> buttonsState latest AND button = button \<and>
             touchpad latest = touchpad (GetLastState MAX_STATES s) \<and>
             (\<forall>a. a \<noteq> axis \<longrightarrow> axes latest a = axes (GetLastState MAX_STATES s) a)"
    by (simp add: Let_def CheckButton_latest [OF inv'] Axis_latest [OF assms] u32_mask_bits)
qed

theorem mutators_copy_forward_witness:
  "ring_inv 64 pressed \<and> (0 :: int) \<le> 1 \<and> (1 :: int) < 2 \<and>
   (case SetTouchpadState 64 2000 1 True 960 470 pressed of
      Inl e \<Rightarrow> False
    | Inr s' \<Rightarrow>
        GetLastState 64 s' =
          (GetLastState 64 pressed)\<lparr>time := 2000,
             touchpad := (touchpad (GetLastState 64 pressed))[nat 1 :=
               (touchpad (GetLastState 64 pressed) ! nat 1)\<lparr>tp_state := True, tp_x := 960, tp_y := 470\<rparr>]\<rparr>) \<and>
   (2 :: int) \<le> 5 \<and> SetTouchpadState 64 2000 5 True 960 470 pressed = Inr pressed \<and>
   axes (GetLastState 64 (CheckButton 64 3000 0 2 True (Axis 64 0x100 0x200 2000 0 LeftX 200 pressed))) LeftX = 200 \<and>
   buttonsState (GetLastState 64 (CheckButton 64 3000 0 2 True (Axis 64 0x100 0x200 2000 0 LeftX 200 pressed))) = 3 \<and>
   LeftY \<noteq> LeftX \<and>
   axes (GetLastState 64 (CheckButton 64 3000 0 2 True (Axis 64 0x100 0x200 2000 0 LeftX 200 pressed))) LeftY =
     axes (GetLastState 64 pressed) LeftY"
proof -
  note inv = pressed_facts(1)
  note th = mutators_copy_forward [OF inv, where now = 2000 and now' = 3000 and pad_id = 0
      and pad_id' = 0 and button = 2 and ?L2.0 = "0x100" and ?R2.0 = "0x200" and axis = LeftX
      and val = 200 and touchIndex = 1 and touchDown = True and cx = 960 and cy = 470,
      unfolded Let_def]
  note th5 = mutators_copy_forward [OF inv, where now = 2000 and touchIndex = 5
      and touchDown = True and cx = 960 and cy = 470]
  from th5 have high: "SetTouchpadState 64 2000 5 True 960 470 pressed = Inr pressed" by simp
  have b: "buttonsState (GetLastState 64 pressed) = 1" by (simp add: pressed_facts)
  from th have "buttonsState (GetLastState 64 (CheckButton 64 3000 0 2 True
      (Axis 64 0x100 0x200 2000 0 LeftX 200 pressed))) = 3"
    by (simp add: CheckButton_latest [OF ring_inv_Axis [OF inv]] Axis_latest [OF inv] b)
  with th inv high show ?thesis by simp
qed



text \<open>
  C8 (lock discipline). The claim fails on the code for \<open>Poll\<close>: it takes no lock, and its
  first access, the read of \<open>m_connected\<close>, and every later read and write (through
  \<open>GetLastState\<close> and \<open>AddState\<close>) happen outside \<open>m_mutex\<close>, in every state. \<open>ReadState\<close>,
  \<open>ReadStates\<close>, \<open>CheckButton\<close>, \<open>Axis\<close> and \<open>SetTouchpadState\<close> hold the lock over all their
  accesses.
\<close>

theorem Poll_not_locked:
  "\<not> locked_throughout (Poll_accesses MAX_STATES now s) False \<and>
   hd (Poll_accesses MAX_STATES now s) = Read M_connected \<and>
   Lock \<notin> set (Poll_accesses MAX_STATES now s) \<and>
   locked_throughout (ReadState_accesses s) False \<and>
   locked_throughout (ReadStates_accesses MAX_STATES states_num s) False \<and>
   locked_throughout (CheckButton_accesses MAX_STATES s) False \<and>
   locked_throughout (Axis_accesses MAX_STATES s) False \<and>
   locked_throughout (SetTouchpadState_accesses MAX_STATES touchIndex s) False"
proof (intro conjI)
  show "\<not> locked_throughout (Poll_accesses MAX_STATES now s) False"
    by (simp add: Poll_accesses_def)
  show "hd (Poll_accesses MAX_STATES now s) = Read M_connected"
    by (simp add: Poll_accesses_def)
  show "Lock \<notin> set (Poll_accesses MAX_STATES now s)"
    by (simp add: Poll_accesses_def GetLastState_accesses_def AddState_accesses_def Let_def)
  show "locked_throughout (ReadState_accesses s) False" by (rule ReadState_locked)
  show "locked_throughout (ReadStates_accesses MAX_STATES states_num s) False"
    by (rule ReadStates_locked)
  show "locked_throughout (CheckButton_accesses MAX_STATES s) False"
    unfolding CheckButton_accesses_def by (rule mutator_locked)
  show "locked_throughout (Axis_accesses MAX_STATES s) False"
    unfolding Axis_accesses_def by (rule mutator_locked)
  show "locked_throughout (SetTouchpadState_accesses MAX_STATES touchIndex s) False"
    using mutator_locked [of s MAX_STATES] by (simp add: SetTouchpadState_accesses_def)
qed

text \<open>
  C9 (reads only set flags). \<open>ReadStates\<close> leaves \<open>m_states_num\<close>, \<open>m_first_state\<close>,
  \<open>m_states\<close>, \<open>m_last_state\<close> and the connection members unchanged; a flag of \<open>m_private\<close>
  that it changes was unset and belongs to a slot whose sample it returned. A push makes
  the count non-zero, and from a state with a non-zero count no run of calls brings it
  back to 0: the \<open>m_states_num == 0\<close> branches are taken only before the first push.
\<close>

theorem ReadStates_changes_flags_only:
  assumes "0 < MAX_STATES" and "m_states_num s \<noteq> 0" and "run MAX_STATES L2 R2 cs s = Inr s'"
  shows "m_states_num (snd (ReadStates MAX_STATES n t)) = m_states_num t \<and>
         m_first_state (snd (ReadStates MAX_STATES n t)) = m_first_state t \<and>
         m_states (snd (ReadStates MAX_STATES n t)) = m_states t \<and>
         m_last_state (snd (ReadStates MAX_STATES n t)) = m_last_state t \<and>
         m_connected (snd (ReadStates MAX_STATES n t)) = m_connected t \<and>
         m_connected_count (snd (ReadStates MAX_STATES n t)) = m_connected_count t \<and>
         length (m_private (snd (ReadStates MAX_STATES n t))) = length (m_private t) \<and>
         (\<forall>j<length (m_private t).
            obtained (m_private (snd (ReadStates MAX_STATES n t)) ! j) \<noteq> obtained (m_private t ! j) \<longrightarrow>
              \<not> obtained (m_private t ! j) \<and>
              m_states t ! j \<in> set (fst (snd (fst (ReadStates MAX_STATES n t))))) \<and>
         m_states_num (AddState MAX_STATES x t) \<noteq> 0 \<and>
         m_states_num s' \<noteq> 0"
proof (intro conjI)
  show "m_states_num (snd (ReadStates MAX_STATES n t)) = m_states_num t"
    and "m_first_state (snd (ReadStates MAX_STATES n t)) = m_first_state t"
    and "m_states (snd (ReadStates MAX_STATES n t)) = m_states t"
    and "m_last_state (snd (ReadStates MAX_STATES n t)) = m_last_state t"
    and "m_connected (snd (ReadStates MAX_STATES n t)) = m_connected t"
    and "m_connected_count (snd (ReadStates MAX_STATES n t)) = m_connected_count t"
    by (rule ReadStates_fields)+
  show "length (m_private (snd (ReadStates MAX_STATES n t))) = length (m_private t)"
    by (rule ReadStates_length)
  show "\<forall>j<length (m_private t).
          obtained (m_private (snd (ReadStates MAX_STATES n t)) ! j) \<noteq> obtained (m_private t ! j) \<longrightarrow>
            \<not> obtained (m_private t ! j) \<and>
            m_states t ! j \<in> set (fst (snd (fst (ReadStates MAX_STATES n t))))"
    by (rule ReadStates_flags)
  show "m_states_num (AddState MAX_STATES x t) \<noteq> 0"
    using assms(1) by (rule AddState_nonempty)
  show "m_states_num s' \<noteq> 0"
    using assms by (rule run_nonempty)
qed

theorem ReadStates_changes_flags_only_witness:
  "(0 :: u32) < 64 \<and> m_states_num pressed \<noteq> 0 \<and>
   run 64 0x100 0x200 [Call_ReadStates 64, Call_Poll 101000] pressed =
     Inr (snd (Poll 64 101000 (snd (ReadStates 64 64 pressed)))) \<and>
   0 < length (m_private pressed) \<and>
   obtained (m_private (snd (ReadStates 64 64 pressed)) ! 0) \<noteq> obtained (m_private pressed ! 0) \<and>
   \<not> obtained (m_private pressed ! 0) \<and>
   m_states pressed ! 0 \<in> set (fst (snd (fst (ReadStates 64 64 pressed)))) \<and>
   m_states_num (snd (ReadStates 64 64 pressed)) = m_states_num pressed \<and>
   m_states (snd (ReadStates 64 64 pressed)) = m_states pressed \<and>
   m_states_num (snd (Poll 64 101000 (snd (ReadStates 64 64 pressed)))) \<noteq> 0"
proof -
  have pos: "(0 :: u32) < 64" by simp
  have ne: "m_states_num pressed \<noteq> 0" by (simp add: pressed_facts)
  have r: "run 64 0x100 0x200 [Call_ReadStates 64, Call_Poll 101000] pressed =
     Inr (snd (Poll 64 101000 (snd (ReadStates 64 64 pressed))))"
    by simp
  have len: "0 < length (m_private pressed)"
    by (simp add: pressed_def CheckButton_def AddState_def fresh_def GameController_def Let_def)
  have diff: "obtained (m_private (snd (ReadStates 64 64 pressed)) ! 0) \<noteq> obtained (m_private pressed ! 0)"
    by (simp add: pressed_def ReadStates_def ReadStates_loop.simps CheckButton_def AddState_def
        GetLastState_def fresh_def GameController_def Let_def word_le_nat_alt word_less_nat_alt)
  note th = ReadStates_changes_flags_only [OF pos ne r, of 64 pressed]
  from th len diff
  have "\<not> obtained (m_private pressed ! 0) \<and>
        m_states pressed ! 0 \<in> set (fst (snd (fst (ReadStates 64 64 pressed))))"
    by blast
  with th pos ne r len diff show ?thesis by blast
qed

text \<open>
  C10 (cached last state). The constructor stores the default sample in \<open>m_last_state\<close>,
  every \<open>AddState\<close> overwrites it with the pushed sample, and \<open>ReadStates\<close> and \<open>Poll\<close> leave it
  as it is; so after any run of calls from a state in which \<open>GetLastState()\<close> equals
  \<open>m_last_state\<close> (as after construction) it still does, and \<open>ReadState\<close> reports
  \<open>m_last_state\<close>.
\<close>

theorem m_last_state_is_latest:
  assumes "ring_inv MAX_STATES s" and "GetLastState MAX_STATES s = m_last_state s"
    and "run MAX_STATES L2 R2 cs s = Inr s'"
  shows "m_last_state (GameController State_default this) = State_default \<and>
         GetLastState MAX_STATES (GameController State_default this) = State_default \<and>
         m_last_state (AddState MAX_STATES x s) = x \<and>
         GetLastState MAX_STATES (AddState MAX_STATES x s) = x \<and>
         m_last_state (snd (ReadStates MAX_STATES n s)) = m_last_state s \<and>
         m_last_state (snd (Poll MAX_STATES now s)) = m_last_state s \<and>
         GetLastState MAX_STATES s' = m_last_state s' \<and>
         ReadState MAX_STATES s' = (m_last_state s', m_connected s', m_connected_count s')"
proof -
  have "GetLastState MAX_STATES s' = m_last_state s'"
    using run_cache [OF assms] by simp
  then show ?thesis
    using assms(1,2)
    by (simp add: GameController_def GetLastState_def [of _ "_\<lparr>m_states_num := 0, m_last_state := _\<rparr>"]
        m_last_state_AddState GetLastState_push ReadStates_fields Poll_keeps_cache ReadState_def)
qed

theorem m_last_state_is_latest_witness:
  "ring_inv 64 (fresh 64) \<and> GetLastState 64 (fresh 64) = m_last_state (fresh 64) \<and>
   run 64 0x100 0x200 [Call_CheckButton 1000 0 1 True, Call_ReadStates 64, Call_Poll 101000] (fresh 64) =
     Inr (snd (Poll 64 101000 (snd (ReadStates 64 64 pressed)))) \<and>
   GetLastState 64 (snd (Poll 64 101000 (snd (ReadStates 64 64 pressed)))) =
     m_last_state (snd (Poll 64 101000 (snd (ReadStates 64 64 pressed)))) \<and>
   m_last_state (AddState 64 (stamped 5) (fresh 64)) = stamped 5 \<and>
   GetLastState 64 (AddState 64 (stamped 5) (fresh 64)) = stamped 5"
proof -
  have inv: "ring_inv 64 (fresh 64)" by (rule ring_inv_fresh) simp_all
  have c: "GetLastState 64 (fresh 64) = m_last_state (fresh 64)"
    by (simp add: GetLastState_def fresh_def GameController_def)
  have r: "run 64 0x100 0x200 [Call_CheckButton 1000 0 1 True, Call_ReadStates 64, Call_Poll 101000] (fresh 64) =
     Inr (snd (Poll 64 101000 (snd (ReadStates 64 64 pressed))))"
    by (simp add: pressed_def)
  from m_last_state_is_latest [OF inv c r, of zero_sample "fresh 64" "stamped 5" 64 101000] inv c r
  show ?thesis by blast
qed
end
